theory Spec2Isabelle
  imports Main "HOL-Library.Word"
begin

unbundle bit_operations_syntax

section \<open>Shadow memory of the SyzyASan runtime (syzygy/agent/asan/shadow.cc)\<close>

text \<open>
  The process is a 32-bit one: \<open>uintptr_t\<close>, \<open>size_t\<close> and \<open>DWORD\<close> are 32-bit words,
  a shadow byte is an 8-bit word. The static array \<open>Shadow::shadow_\<close> is a function from
  the array index to the byte stored there; every operation that writes the array takes
  it and returns the updated one. The \<open>DCHECK\<close>s of the source are kept as predicates
  (\<open>\<dots>_DCHECK\<close>) and appear as hypotheses of the theorems: outside them the C++ code reads
  or writes outside the array.
\<close>

type_synonym uint8 = "8 word"
type_synonym uintptr_t = "32 word"
type_synonym size_t = "32 word"
type_synonym DWORD = "32 word"
type_synonym shadow = "nat \<Rightarrow> uint8"

subsection \<open>What shadow.cc uses from headers that are not among the sources\<close>

text \<open>
  \<open>ShadowMarkerHelper\<close> and the marker constants are declared in shadow_marker.h, which is
  not among the sources. The functions of shadow.cc are modelled with the helper as a
  parameter \<open>H\<close>: a record holding the predicates, the two marker builders and the
  marker constants that shadow.cc and asan_runtime.cc refer to.
\<close>

record ShadowMarkerHelper =
  IsRedzone :: "uint8 \<Rightarrow> bool"
  IsActiveBlock :: "uint8 \<Rightarrow> bool"
  IsBlockStart :: "uint8 \<Rightarrow> bool"
  IsActiveBlockStart :: "uint8 \<Rightarrow> bool"
  IsNestedBlockStart :: "uint8 \<Rightarrow> bool"
  GetBlockStartData :: "uint8 \<Rightarrow> uint8"
  IsBlockEnd :: "uint8 \<Rightarrow> bool"
  IsNestedBlockEnd :: "uint8 \<Rightarrow> bool"
  IsActiveLeftRedzone :: "uint8 \<Rightarrow> bool"
  IsActiveRightRedzone :: "uint8 \<Rightarrow> bool"
  BuildBlockStart :: "bool \<Rightarrow> bool \<Rightarrow> uint8 \<Rightarrow> uint8"
  BuildBlockEnd :: "bool \<Rightarrow> bool \<Rightarrow> uint8"
  kHeapLeftPaddingMarker :: uint8
  kHeapRightPaddingMarker :: uint8
  kHeapFreedMarker :: uint8
  kAsanMemoryMarker :: uint8
  kInvalidAddressMarker :: uint8

text \<open>
  The addressable marker is the zero byte and the partially addressable markers are
  1 to 7: \<open>Shadow::IsAccessible\<close> and \<open>MarkAsFreedImplAligned64\<close> compare with the
  literal 0, and \<open>AppendShadowMemoryText\<close> prints "Addressable: 00" and
  "Partially addressable: 01 - 07".
\<close>

definition kHeapAddressableMarker :: uint8 where
  "kHeapAddressableMarker = 0"

definition kHeapPartiallyAddressableByte7 :: uint8 where
  "kHeapPartiallyAddressableByte7 = 7"

definition kShadowRatio :: nat where
  "kShadowRatio = 8"

text \<open>
  Modelled from the spec: shadow.h is not among the sources. Section 4.1 of the spec
  gives one shadow byte per 8 bytes of a 2 GiB address space (a 256 MiB array), and
  the first 64 KiB of the address space are not addressable (also the comment in
  \<open>Shadow::SetUp\<close>).
\<close>

definition kShadowSize :: nat where
  "kShadowSize = 2 ^ 28"

definition kAddressLowerBound :: nat where
  "kAddressLowerBound = 65536"

text \<open>
  Modelled from the spec: shadow_marker.h is not among the sources. Section 3 of the spec
  fixes 0 and 1..7, says that every redzone class is a marker of its own, that block-start
  markers carry \<open>body_size mod 8\<close> in their low bits and that block-start and block-end
  markers carry a "nested" bit. \<open>syzygy_markers\<close> is one encoding with these properties
  (leading bit set on all redzone markers, bit 5 the "active" bit). The theorems below
  hold for every helper \<open>H\<close> that meets their stated hypotheses; this encoding
  shows that the hypotheses can be met and instantiates them at concrete inputs.
\<close>

definition syzygy_markers :: ShadowMarkerHelper where
  "syzygy_markers = \<lparr>
     IsRedzone = (\<lambda>m. m AND 0x80 = 0x80),
     IsActiveBlock = (\<lambda>m. m = 0xFA \<or> m = 0xFB \<or> m = 0xFD \<or> m AND 0xF0 = 0xE0 \<or>
                          m AND 0xFE = 0xF4),
     IsBlockStart = (\<lambda>m. m AND 0xD0 = 0xC0),
     IsActiveBlockStart = (\<lambda>m. m AND 0xF0 = 0xE0),
     IsNestedBlockStart = (\<lambda>m. m AND 0xD0 = 0xC0 \<and> m AND 0x08 = 0x08),
     GetBlockStartData = (\<lambda>m. m AND 0x07),
     IsBlockEnd = (\<lambda>m. m AND 0xDE = 0xD4),
     IsNestedBlockEnd = (\<lambda>m. m AND 0xDE = 0xD4 \<and> m AND 0x01 = 0x01),
     IsActiveLeftRedzone = (\<lambda>m. m = 0xFA \<or> m AND 0xF0 = 0xE0),
     IsActiveRightRedzone = (\<lambda>m. m = 0xFB \<or> m AND 0xFE = 0xF4),
     BuildBlockStart = (\<lambda>active nested data.
        0xC0 OR (if active then 0x20 else 0) OR (if nested then 0x08 else 0) OR data),
     BuildBlockEnd = (\<lambda>active nested.
        0xD4 OR (if active then 0x20 else 0) OR (if nested then 0x01 else 0)),
     kHeapLeftPaddingMarker = 0xFA,
     kHeapRightPaddingMarker = 0xFB,
     kHeapFreedMarker = 0xFD,
     kAsanMemoryMarker = 0xF1,
     kInvalidAddressMarker = 0xF2 \<rparr>"

subsection \<open>memset on the shadow array\<close>

definition memset :: "shadow \<Rightarrow> nat \<Rightarrow> uint8 \<Rightarrow> nat \<Rightarrow> shadow" where
  "memset sh i v n = (\<lambda>j. if i \<le> j \<and> j < i + n then v else sh j)"

subsection \<open>Shadow::Poison and Shadow::Unpoison\<close>

definition Poison_DCHECK :: "uintptr_t \<Rightarrow> size_t \<Rightarrow> bool" where
  "Poison_DCHECK addr sz \<longleftrightarrow>
     (addr + sz) AND 7 = 0 \<and>
     (let index = drop_bit 3 addr;
          index' = (if addr AND 7 \<noteq> 0 then index + 1 else index)
      in kShadowSize > unat index' + unat (drop_bit 3 sz))"

definition Poison :: "shadow \<Rightarrow> uintptr_t \<Rightarrow> size_t \<Rightarrow> uint8 \<Rightarrow> shadow" where
  "Poison sh addr sz shadow_val =
     (let index = addr;
          start = index AND 7;
          index = drop_bit 3 index;
          (sh, index) = (if start \<noteq> 0 then (sh(unat index := ucast start), index + 1)
                         else (sh, index));
          sz = drop_bit 3 sz
      in memset sh (unat index) shadow_val (unat sz))"

definition Unpoison_DCHECK :: "uintptr_t \<Rightarrow> size_t \<Rightarrow> bool" where
  "Unpoison_DCHECK addr sz \<longleftrightarrow>
     addr AND 7 = 0 \<and> kShadowSize > unat (drop_bit 3 addr) + unat (drop_bit 3 sz)"

definition Unpoison :: "shadow \<Rightarrow> uintptr_t \<Rightarrow> size_t \<Rightarrow> shadow" where
  "Unpoison sh addr sz =
     (let index = addr;
          remainder = (ucast (sz AND 7) :: uint8);
          index = drop_bit 3 index;
          sz = drop_bit 3 sz;
          sh = memset sh (unat index) kHeapAddressableMarker (unat sz)
      in if remainder \<noteq> 0 then sh(unat index + unat sz := remainder) else sh)"

subsection \<open>Queries on one address\<close>

definition IsAccessible :: "ShadowMarkerHelper \<Rightarrow> shadow \<Rightarrow> uintptr_t \<Rightarrow> bool" where
  "IsAccessible H sh addr =
     (let index = addr;
          start = index AND 7;
          index = drop_bit 3 index;
          shadow = sh (unat index)
      in if shadow = 0 then True
         else if IsRedzone H shadow then False
         else start < ucast shadow)"

definition GetShadowMarkerForAddress :: "shadow \<Rightarrow> uintptr_t \<Rightarrow> uint8" where
  "GetShadowMarkerForAddress sh addr = sh (unat (drop_bit 3 addr))"

definition IsLeftRedzone :: "ShadowMarkerHelper \<Rightarrow> shadow \<Rightarrow> uintptr_t \<Rightarrow> bool" where
  "IsLeftRedzone H sh address = IsActiveLeftRedzone H (GetShadowMarkerForAddress sh address)"

definition IsRightRedzone :: "ShadowMarkerHelper \<Rightarrow> shadow \<Rightarrow> uintptr_t \<Rightarrow> bool" where
  "IsRightRedzone H sh address =
     (let index = address;
          start = index AND 7;
          index = drop_bit 3 index;
          marker = sh (unat index)
      in if marker = 0 then False
         else if marker \<le> kHeapPartiallyAddressableByte7 then
           (if unat index = kShadowSize then False
            else if \<not> IsActiveRightRedzone H (sh (unat index + 1)) then False
            else start \<ge> ucast marker)
         else IsActiveRightRedzone H marker)"

definition IsBeginningOfBlockBody :: "ShadowMarkerHelper \<Rightarrow> shadow \<Rightarrow> uintptr_t \<Rightarrow> bool" where
  "IsBeginningOfBlockBody H sh addr =
     (if IsAccessible H sh addr \<or> IsRightRedzone H sh addr \<or>
         GetShadowMarkerForAddress sh addr = kHeapFreedMarker H
      then IsLeftRedzone H sh (addr - 1)
      else False)"

subsection \<open>Shadow::MarkAsFreed\<close>

text \<open>
  The cursors of the source are pointers into \<open>shadow_\<close>; here they are array indices.
  \<open>ScanRightForPotentialHeaderBytes\<close> DCHECKs that \<open>shadow_ + kShadowSize\<close> is 8-byte
  aligned, so \<open>shadow_\<close> is, and a pointer into the array is aligned as its index is.
  A \<open>uint64\<close> read at a cursor is the list of the 8 bytes there (\<open>load_bytes\<close>);
  \<open>kFreedMarker64\<close> is 8 bytes \<open>kHeapFreedMarker\<close>. The difference of two cursors is
  compared as a \<open>size_t\<close>, so it is taken modulo \<open>2 ^ 32\<close>. The loops run while
  \<open>cursor != cursor_end\<close>, so they are partial functions: \<open>None\<close> is a loop that does
  not end. \<open>AlignUp\<close> and \<open>AlignDown\<close> are those of syzygy/common/align.h (not among
  the sources): the next and the previous multiple of the alignment.
  \<open>freed_range\<close> is not from the source: it states the effect that is proved.
\<close>

definition AlignUp :: "nat \<Rightarrow> nat \<Rightarrow> nat" where
  "AlignUp x alignment = ((x + alignment - 1) div alignment) * alignment"

definition AlignDown :: "nat \<Rightarrow> nat \<Rightarrow> nat" where
  "AlignDown x alignment = (x div alignment) * alignment"

definition load_bytes :: "shadow \<Rightarrow> nat \<Rightarrow> nat \<Rightarrow> uint8 list" where
  "load_bytes sh pos n = map sh [pos ..< pos + n]"

partial_function (option) MarkAsFreedImpl8 ::
  "ShadowMarkerHelper \<Rightarrow> shadow \<Rightarrow> nat \<Rightarrow> nat \<Rightarrow> shadow option" where
  "MarkAsFreedImpl8 H sh cursor cursor_end =
     (if cursor = cursor_end then Some sh
      else if IsActiveLeftRedzone H (sh cursor) \<or> IsActiveRightRedzone H (sh cursor)
        then MarkAsFreedImpl8 H sh (cursor + 1) cursor_end
      else MarkAsFreedImpl8 H (sh(cursor := kHeapFreedMarker H)) (cursor + 1) cursor_end)"

partial_function (option) MarkAsFreedImplAligned64 ::
  "ShadowMarkerHelper \<Rightarrow> shadow \<Rightarrow> nat \<Rightarrow> nat \<Rightarrow> shadow option" where
  "MarkAsFreedImplAligned64 H sh cursor cursor_end =
     (if cursor = cursor_end then Some sh
      else if load_bytes sh cursor 8 = replicate 8 0
        then MarkAsFreedImplAligned64 H (memset sh cursor (kHeapFreedMarker H) 8)
               (cursor + 8) cursor_end
      else Option.bind (MarkAsFreedImpl8 H sh cursor (cursor + 8))
             (\<lambda>sh. MarkAsFreedImplAligned64 H sh (cursor + 8) cursor_end))"

definition MarkAsFreedImpl64 ::
  "ShadowMarkerHelper \<Rightarrow> shadow \<Rightarrow> nat \<Rightarrow> nat \<Rightarrow> shadow option" where
  "MarkAsFreedImpl64 H sh cursor cursor_end =
     (if nat ((int cursor_end - int cursor) mod 2 ^ 32) \<ge> 2 * 8 then
        (let cursor_aligned = AlignUp cursor 8;
             cursor_end_aligned = AlignDown cursor_end 8
         in Option.bind (MarkAsFreedImpl8 H sh cursor cursor_aligned) (\<lambda>sh.
            Option.bind (MarkAsFreedImplAligned64 H sh cursor_aligned cursor_end_aligned) (\<lambda>sh.
            MarkAsFreedImpl8 H sh cursor_end_aligned cursor_end)))
      else MarkAsFreedImpl8 H sh cursor cursor_end)"

definition MarkAsFreed_DCHECK :: "uintptr_t \<Rightarrow> size_t \<Rightarrow> bool" where
  "MarkAsFreed_DCHECK addr sz \<longleftrightarrow>
     kAddressLowerBound \<le> unat addr \<and> addr AND 7 = 0 \<and>
     unat (addr div 8) \<le> kShadowSize \<and>
     unat (addr div 8) + unat ((sz + 8 - 1) div 8) \<le> kShadowSize"

definition MarkAsFreed :: "ShadowMarkerHelper \<Rightarrow> shadow \<Rightarrow> uintptr_t \<Rightarrow> size_t \<Rightarrow> shadow option" where
  "MarkAsFreed H sh addr sz =
     (let index = addr div 8;
          length = (sz + 8 - 1) div 8;
          cursor = unat index;
          cursor_end = cursor + unat length
      in MarkAsFreedImpl64 H sh cursor cursor_end)"

definition freed_range :: "ShadowMarkerHelper \<Rightarrow> shadow \<Rightarrow> nat \<Rightarrow> nat \<Rightarrow> shadow" where
  "freed_range H sh a b =
     (\<lambda>j. if a \<le> j \<and> j < b \<and> \<not> IsActiveLeftRedzone H (sh j) \<and> \<not> IsActiveRightRedzone H (sh j)
          then kHeapFreedMarker H else sh j)"

subsection \<open>The runtime (syzygy/agent/asan/asan_runtime.cc)\<close>

text \<open>
  \<open>MaxSafeAllocaSize\<close> takes the current stack position and the result of
  \<open>VirtualQuery\<close>: \<open>None\<close> when the query fails, otherwise the allocation base of the
  stack. \<open>ExceptionFilterImpl_rebuild\<close> is \<open>AsanRuntime::ExceptionFilterImpl\<close> up to the end
  of its first conditional: it returns the runtime, the exception record and
  \<open>emit_asan_error\<close>. The static \<open>runtime_\<close> is a pointer that may be null, and so is the
  \<open>logger_\<close> it owns; the filter starts with \<open>runtime_->logger_->Write(...)\<close>, before it
  looks at the exception, and a null pointer there is the fault \<open>NullDereference\<close>. The
  logger is not among the sources: its state is a type parameter and its \<open>Write\<close> a
  parameter. The processing of an exception that is not the sentinel (access violation,
  heap check) uses code that is not among the sources and is the parameter
  \<open>process_new_error\<close>; it may write to the logger too. The
  payload that \<open>args[3]\<close> points to is read from the memory \<open>mem\<close>, four bytes per
  argument; a record whose \<open>nargs\<close> exceeds the array makes the loop write past it
  (the fault \<open>OutOfBounds\<close>). In \<open>GetBadAccessInformation\<close> the result of
  \<open>ErrorInfoGetBadAccessInformation\<close> (not among the sources) is a parameter. \<open>SetUp\<close>
  takes the addresses of \<open>shadow_\<close> and \<open>page_bits_\<close> and the size of the latter.
\<close>

definition kAsanFacility :: DWORD where
  "kAsanFacility = 0x68B"

definition kAsanStatus :: DWORD where
  "kAsanStatus = 0x5AD0"

definition kAsanException :: DWORD where
  "kAsanException =
     (push_bit 30 3) OR (push_bit 29 1) OR (push_bit 16 kAsanFacility) OR kAsanStatus"

definition kReservedStack :: size_t where
  "kReservedStack = 5 * 1024"

definition MaxSafeAllocaSize :: "uintptr_t \<Rightarrow> uintptr_t option \<Rightarrow> size_t" where
  "MaxSafeAllocaSize stack VirtualQuery =
     (case VirtualQuery of
        None \<Rightarrow> 0
      | Some AllocationBase \<Rightarrow>
          (let max_size = stack - AllocationBase;
               max_size = max_size - min max_size kReservedStack
           in max_size))"



function copy_orig_args ::
  "(uintptr_t \<Rightarrow> DWORD) \<Rightarrow> uintptr_t \<Rightarrow> DWORD list \<Rightarrow> nat \<Rightarrow> nat \<Rightarrow> DWORD list" where
  "copy_orig_args mem orig_args args i nargs =
     (if i < nargs
      then copy_orig_args mem orig_args (args[i := mem (orig_args + 4 * of_nat i)]) (i + 1) nargs
      else args)"
  by pat_completeness auto
termination
  by (relation "measure (\<lambda>(mem, orig_args, args, i, nargs). nargs - i)") auto

declare copy_orig_args.simps [simp del]





datatype BadAccessKind =
    UNKNOWN_BAD_ACCESS | USE_AFTER_FREE | HEAP_BUFFER_OVERFLOW | HEAP_BUFFER_UNDERFLOW
  | DOUBLE_FREE | CORRUPT_BLOCK | CORRUPT_HEAP | WILD_ACCESS | INVALID_ADDRESS

definition GetBadAccessInformation ::
  "ShadowMarkerHelper \<Rightarrow> shadow \<Rightarrow> BadAccessKind \<Rightarrow> uintptr_t \<Rightarrow> BadAccessKind" where
  "GetBadAccessInformation H sh ErrorInfoGetBadAccessInformation location =
     (if location AND push_bit 31 1 \<noteq> 0 \<or>
         GetShadowMarkerForAddress sh location = kAsanMemoryMarker H
      then WILD_ACCESS
      else if GetShadowMarkerForAddress sh location = kInvalidAddressMarker H
      then INVALID_ADDRESS
      else ErrorInfoGetBadAccessInformation)"

definition SetUp ::
  "ShadowMarkerHelper \<Rightarrow> shadow \<Rightarrow> uintptr_t \<Rightarrow> uintptr_t \<Rightarrow> size_t \<Rightarrow> shadow" where
  "SetUp H sh shadow_addr page_bits_addr kPageBitsSize =
     (let sh = Poison sh shadow_addr (of_nat kShadowSize) (kAsanMemoryMarker H);
          sh = Poison sh 0 (of_nat kAddressLowerBound) (kInvalidAddressMarker H);
          sh = Poison sh page_bits_addr kPageBitsSize (kAsanMemoryMarker H)
      in sh)"

subsection \<open>The quarantine\<close>

text \<open>
  Modelled from the spec: block_heap_manager.cc (the body of \<open>TrimQuarantine\<close>) and
  quarantines/sharded_quarantine.h are not among the sources. Section 4.4 of the spec:
  an entry is stored in the shard given by its hash modulo the number of shards and adds
  its size to the total; \<open>Shrink\<close> pops the oldest entry of a randomly selected non-empty
  shard (the selection is the parameter \<open>pick\<close>) while the total size exceeds the
  maximum; \<open>Flush\<close> yields every entry. \<open>TrimQuarantine\<close> follows its comment in
  block_heap_manager.h: the quarantine is trimmed to its maximum size, and flushed when
  \<open>quarantine_size\<close> is 0.
\<close>

record quarantine_entry =
  entry_block :: uintptr_t
  entry_size :: nat
  entry_hash :: nat

record quarantine =
  shards :: "quarantine_entry list list"
  total_size :: nat

definition Push :: "quarantine \<Rightarrow> quarantine_entry \<Rightarrow> quarantine" where
  "Push q e =
     (let i = entry_hash e mod length (shards q)
      in q\<lparr>shards := (shards q)[i := shards q ! i @ [e]],
           total_size := total_size q + entry_size e\<rparr>)"

definition Pop :: "(nat list \<Rightarrow> nat) \<Rightarrow> quarantine \<Rightarrow> (quarantine_entry \<times> quarantine) option" where
  "Pop pick q =
     (let non_empty = filter (\<lambda>i. shards q ! i \<noteq> []) [0 ..< length (shards q)]
      in if non_empty = [] then None
         else (let i = (if pick non_empty \<in> set non_empty then pick non_empty
                        else hd non_empty);
                   e = hd (shards q ! i)
               in Some (e, q\<lparr>shards := (shards q)[i := tl (shards q ! i)],
                               total_size := total_size q - entry_size e\<rparr>)))"

fun Shrink_loop ::
  "nat \<Rightarrow> (nat list \<Rightarrow> nat) \<Rightarrow> nat \<Rightarrow> quarantine \<Rightarrow> quarantine_entry list \<times> quarantine" where
  "Shrink_loop 0 pick max_total_size q = ([], q)"
| "Shrink_loop (Suc n) pick max_total_size q =
     (if total_size q > max_total_size then
        (case Pop pick q of
           None \<Rightarrow> ([], q)
         | Some (e, q') \<Rightarrow>
             (let (es, q'') = Shrink_loop n pick max_total_size q' in (e # es, q'')))
      else ([], q))"

definition Shrink ::
  "(nat list \<Rightarrow> nat) \<Rightarrow> nat \<Rightarrow> quarantine \<Rightarrow> quarantine_entry list \<times> quarantine" where
  "Shrink pick max_total_size q =
     Shrink_loop (length (concat (shards q))) pick max_total_size q"

definition Flush :: "quarantine \<Rightarrow> quarantine_entry list \<times> quarantine" where
  "Flush q = (concat (shards q), q\<lparr>shards := map (\<lambda>_. []) (shards q), total_size := 0\<rparr>)"

definition TrimQuarantine ::
  "nat \<Rightarrow> (nat list \<Rightarrow> nat) \<Rightarrow> quarantine \<Rightarrow> quarantine_entry list \<times> quarantine" where
  "TrimQuarantine quarantine_size pick q =
     (if quarantine_size = 0 then Flush q else Shrink pick quarantine_size q)"

subsection \<open>Blocks: PoisonAllocatedBlock and BlockInfoFromShadow\<close>

text \<open>
  \<open>CompactBlockInfo\<close> and \<open>BlockInfo\<close> are declared in block.h (not among the sources);
  the records hold the fields that shadow.cc reads and writes. The fields of
  \<open>BlockInfo\<close> carry the prefix \<open>info_\<close>; \<open>info_header_is_nested\<close> is
  \<open>info.header->is_nested\<close>.

  The two scans are loops with several exits. One iteration of each is a function
  (\<open>ScanLeft_body\<close>, \<open>ScanRight_body\<close>) that either returns the result of the scan
  (\<open>Inr\<close>: \<open>Some location\<close> for true, \<open>None\<close> for false) or the cursor and nesting depth
  of the next iteration (\<open>Inl\<close>). \<open>ScanRightForPotentialHeaderBytes\<close> reads 1, 2, 4 or 8
  bytes at a time: \<open>is_potential_header H sh pos n\<close> is the source's test that the
  \<open>n\<close>-byte integer at \<open>pos\<close> is neither 0 nor \<open>n\<close> bytes \<open>kHeapFreedMarker\<close>; the
  labels of its switch are \<open>scan_case_1\<close> to \<open>scan_case_7\<close>, each falling through as the
  source does, and \<open>scan_aligned\<close> is its final loop.

  \<open>skipped\<close>, \<open>ScanLeft_reaches\<close>, \<open>ScanRight_reaches\<close>, \<open>ScanLeft_initial\<close>,
  \<open>ScanRight_initial\<close>, \<open>non_nested_start\<close> and \<open>non_nested_end\<close> are not from the
  source: they state what is proved. \<open>ScanLeft_reaches H sh s t\<close> says that the left scan
  started in the state \<open>s\<close> (cursor, nesting depth) begins an iteration in the state
  \<open>t\<close>; the initial states are those that the two scan functions compute before their
  loops.
\<close>

record CompactBlockInfo =
  block :: uintptr_t
  block_size :: size_t
  header_size :: size_t
  trailer_size :: size_t
  is_nested :: bool

record BlockInfo =
  info_block :: uintptr_t
  info_block_size :: size_t
  info_header_padding_size :: size_t
  info_body :: uintptr_t
  info_body_size :: size_t
  info_header_is_nested :: bool

definition PoisonAllocatedBlock_DCHECK :: "BlockInfo \<Rightarrow> bool" where
  "PoisonAllocatedBlock_DCHECK info \<longleftrightarrow>
     info_block info AND 7 = 0 \<and> info_header_padding_size info AND 7 = 0 \<and>
     info_block_size info AND 7 = 0"

definition PoisonAllocatedBlock :: "ShadowMarkerHelper \<Rightarrow> shadow \<Rightarrow> BlockInfo \<Rightarrow> shadow" where
  "PoisonAllocatedBlock H sh info =
     (let index = info_block info;
          index = index div 8;
          left_redzone_bytes = (info_body info - info_block info) div 8;
          body_bytes = (info_body_size info + 8 - 1) div 8;
          block_bytes = info_block_size info div 8;
          right_redzone_bytes = block_bytes - left_redzone_bytes - body_bytes;
          body_size_mod = (ucast (info_body_size info mod 8) :: uint8);
          header_marker = BuildBlockStart H True (info_header_is_nested info) body_size_mod;
          trailer_marker = BuildBlockEnd H True (info_header_is_nested info);
          cursor = unat index;
          sh = memset sh cursor header_marker 1;
          sh = memset sh (cursor + 1) (kHeapLeftPaddingMarker H) (unat (left_redzone_bytes - 1));
          cursor = cursor + unat left_redzone_bytes;
          sh = memset sh cursor kHeapAddressableMarker (unat body_bytes);
          cursor = cursor + unat body_bytes;
          sh = (if body_size_mod > 0 then sh(cursor - 1 := body_size_mod) else sh);
          sh = memset sh cursor (kHeapRightPaddingMarker H) (unat (right_redzone_bytes - 1));
          sh = memset sh (cursor + unat right_redzone_bytes - 1) trailer_marker 1
      in sh)"

definition kLowerBound :: nat where
  "kLowerBound = kAddressLowerBound div kShadowRatio"

definition ScanLeft_body ::
  "ShadowMarkerHelper \<Rightarrow> shadow \<Rightarrow> nat \<Rightarrow> int \<Rightarrow> (nat \<times> int) + nat option" where
  "ScanLeft_body H sh left nesting_depth =
     (if IsBlockStart H (sh left) then
        (if nesting_depth = 0 then Inr (Some left)
         else if \<not> IsNestedBlockStart H (sh left) then Inr None
         else if left \<le> kLowerBound then Inr None
         else Inl (left - 1, nesting_depth - 1))
      else if IsBlockEnd H (sh left) then
        (if nesting_depth + 1 > 0 \<and> \<not> IsNestedBlockEnd H (sh left) then Inr None
         else if left \<le> kLowerBound then Inr None
         else Inl (left - 1, nesting_depth + 1))
      else if left \<le> kLowerBound then Inr None
      else Inl (left - 1, nesting_depth))"

lemma ScanLeft_body_decreases:
  "ScanLeft_body H sh left nesting_depth = Inl (left', d') \<Longrightarrow> left' < left"
  by (auto simp: ScanLeft_body_def split: if_splits)

function ScanLeft_loop :: "ShadowMarkerHelper \<Rightarrow> shadow \<Rightarrow> nat \<Rightarrow> int \<Rightarrow> nat option" where
  "ScanLeft_loop H sh left nesting_depth =
     (case ScanLeft_body H sh left nesting_depth of
        Inr result \<Rightarrow> result
      | Inl (left', nesting_depth') \<Rightarrow> ScanLeft_loop H sh left' nesting_depth')"
  by pat_completeness auto
termination
  by (relation "measure (\<lambda>(H, sh, left, nesting_depth). left)")
     (auto dest: ScanLeft_body_decreases)

declare ScanLeft_loop.simps [simp del]

definition ScanLeftForBracketingBlockStart ::
  "ShadowMarkerHelper \<Rightarrow> shadow \<Rightarrow> size_t \<Rightarrow> nat \<Rightarrow> nat option" where
  "ScanLeftForBracketingBlockStart H sh initial_nesting_depth cursor =
     (let left = cursor;
          nesting_depth = sint initial_nesting_depth;
          nesting_depth = (if IsBlockEnd H (sh left) then nesting_depth - 1 else nesting_depth)
      in ScanLeft_loop H sh left nesting_depth)"

definition is_potential_header :: "ShadowMarkerHelper \<Rightarrow> shadow \<Rightarrow> nat \<Rightarrow> nat \<Rightarrow> bool" where
  "is_potential_header H sh pos n \<longleftrightarrow>
     load_bytes sh pos n \<noteq> replicate n 0 \<and>
     load_bytes sh pos n \<noteq> replicate n (kHeapFreedMarker H)"

function scan_aligned :: "ShadowMarkerHelper \<Rightarrow> shadow \<Rightarrow> nat \<Rightarrow> nat \<Rightarrow> nat" where
  "scan_aligned H sh pos end_pos =
     (if pos < end_pos then
        (if is_potential_header H sh pos 8 then pos
         else scan_aligned H sh (pos + 8) end_pos)
      else pos)"
  by pat_completeness auto
termination
  by (relation "measure (\<lambda>(H, sh, pos, end_pos). end_pos - pos)") auto

declare scan_aligned.simps [simp del]

definition scan_case_4 :: "ShadowMarkerHelper \<Rightarrow> shadow \<Rightarrow> nat \<Rightarrow> nat \<Rightarrow> nat" where
  "scan_case_4 H sh pos end_pos =
     (if is_potential_header H sh pos 4 then pos else scan_aligned H sh (pos + 4) end_pos)"

definition scan_case_2 :: "ShadowMarkerHelper \<Rightarrow> shadow \<Rightarrow> nat \<Rightarrow> nat \<Rightarrow> nat" where
  "scan_case_2 H sh pos end_pos =
     (if is_potential_header H sh pos 2 then pos else scan_case_4 H sh (pos + 2) end_pos)"

definition scan_case_1 :: "ShadowMarkerHelper \<Rightarrow> shadow \<Rightarrow> nat \<Rightarrow> nat \<Rightarrow> nat" where
  "scan_case_1 H sh pos end_pos =
     (if is_potential_header H sh pos 1 then pos else scan_case_2 H sh (pos + 1) end_pos)"

definition scan_case_3 :: "ShadowMarkerHelper \<Rightarrow> shadow \<Rightarrow> nat \<Rightarrow> nat \<Rightarrow> nat" where
  "scan_case_3 H sh pos end_pos =
     (if is_potential_header H sh pos 1 then pos
      else if is_potential_header H sh (pos + 1) 4 then pos + 1
      else scan_aligned H sh (pos + 1 + 4) end_pos)"

definition scan_case_6 :: "ShadowMarkerHelper \<Rightarrow> shadow \<Rightarrow> nat \<Rightarrow> nat \<Rightarrow> nat" where
  "scan_case_6 H sh pos end_pos =
     (if is_potential_header H sh pos 2 then pos else scan_aligned H sh (pos + 2) end_pos)"

definition scan_case_5 :: "ShadowMarkerHelper \<Rightarrow> shadow \<Rightarrow> nat \<Rightarrow> nat \<Rightarrow> nat" where
  "scan_case_5 H sh pos end_pos =
     (if is_potential_header H sh pos 1 then pos else scan_case_6 H sh (pos + 1) end_pos)"

definition scan_case_7 :: "ShadowMarkerHelper \<Rightarrow> shadow \<Rightarrow> nat \<Rightarrow> nat \<Rightarrow> nat" where
  "scan_case_7 H sh pos end_pos =
     (if is_potential_header H sh pos 1 then pos else scan_aligned H sh (pos + 1) end_pos)"

definition ScanRightForPotentialHeaderBytes ::
  "ShadowMarkerHelper \<Rightarrow> shadow \<Rightarrow> nat \<Rightarrow> nat \<Rightarrow> nat" where
  "ScanRightForPotentialHeaderBytes H sh pos end_pos =
     (let a = pos mod 8 in
      if a = 1 then scan_case_1 H sh pos end_pos
      else if a = 2 then scan_case_2 H sh pos end_pos
      else if a = 4 then scan_case_4 H sh pos end_pos
      else if a = 3 then scan_case_3 H sh pos end_pos
      else if a = 5 then scan_case_5 H sh pos end_pos
      else if a = 6 then scan_case_6 H sh pos end_pos
      else if a = 7 then scan_case_7 H sh pos end_pos
      else scan_aligned H sh pos end_pos)"

definition ScanRight_body ::
  "ShadowMarkerHelper \<Rightarrow> shadow \<Rightarrow> nat \<Rightarrow> int \<Rightarrow> (nat \<times> int) + nat option" where
  "ScanRight_body H sh pos nesting_depth =
     (let pos = ScanRightForPotentialHeaderBytes H sh pos kShadowSize in
      if pos = kShadowSize then Inr None
      else if IsBlockEnd H (sh pos) then
        (if nesting_depth = 0 then Inr (Some pos)
         else if \<not> IsNestedBlockEnd H (sh pos) then Inr None
         else Inl (pos + 1, nesting_depth - 1))
      else if IsBlockStart H (sh pos) then
        (if nesting_depth + 1 > 0 \<and> \<not> IsNestedBlockStart H (sh pos) then Inr None
         else Inl (pos + 1, nesting_depth + 1))
      else Inl (pos + 1, nesting_depth))"


definition skipped :: "ShadowMarkerHelper \<Rightarrow> shadow \<Rightarrow> nat \<Rightarrow> nat \<Rightarrow> bool" where
  "skipped H sh p q \<longleftrightarrow>
     p \<le> q \<and> (\<forall>j. p \<le> j \<and> j < q \<longrightarrow> sh j = 0 \<or> sh j = kHeapFreedMarker H)"

lemma skipped_refl: "skipped H sh p p"
  by (auto simp: skipped_def)

lemma load_bytes_const:
  assumes "load_bytes sh p n = replicate n c" "p \<le> j" "j < p + n"
  shows "sh j = c"
proof -
  have l: "j - p < n" using assms(2,3) by arith
  then have "load_bytes sh p n ! (j - p) = sh (p + (j - p))"
    unfolding load_bytes_def by (simp del: upt_Suc)
  moreover have "replicate n c ! (j - p) = c"
    using l by (simp only: nth_replicate)
  ultimately show ?thesis using assms(1,2) by simp
qed

lemma skipped_chunk:
  assumes "\<not> is_potential_header H sh p n" "skipped H sh (p + n) q"
  shows "skipped H sh p q"
proof -
  have u: "\<And>j. p \<le> j \<Longrightarrow> j < p + n \<Longrightarrow> sh j = 0 \<or> sh j = kHeapFreedMarker H"
    using assms(1) load_bytes_const [of sh p n] unfolding is_potential_header_def by blast
  have "p \<le> q" using assms(2) unfolding skipped_def by arith
  moreover have "sh j = 0 \<or> sh j = kHeapFreedMarker H" if "p \<le> j" "j < q" for j
  proof (cases "j < p + n")
    case True then show ?thesis using u that by blast
  next
    case False
    then have "p + n \<le> j" by arith
    then show ?thesis using assms(2) that unfolding skipped_def by blast
  qed
  ultimately show ?thesis unfolding skipped_def by blast
qed

lemma scan_aligned_skipped: "skipped H sh pos (scan_aligned H sh pos end_pos)"
proof (induction H sh pos end_pos rule: scan_aligned.induct)
  case (1 H sh pos end_pos)
  show ?case
  proof (cases "pos < end_pos \<and> \<not> is_potential_header H sh pos 8")
    case True
    then have "scan_aligned H sh pos end_pos = scan_aligned H sh (pos + 8) end_pos"
      by (subst scan_aligned.simps) simp
    moreover have "skipped H sh (pos + 8) (scan_aligned H sh (pos + 8) end_pos)"
      using 1 True by blast
    ultimately show ?thesis using skipped_chunk True by metis
  next
    case False
    then have "scan_aligned H sh pos end_pos = pos"
      by (subst scan_aligned.simps) auto
    then show ?thesis by (simp only: skipped_refl)
  qed
qed

lemma scan_case_4_skipped: "skipped H sh pos (scan_case_4 H sh pos end_pos)"
proof (cases "is_potential_header H sh pos 4")
  case True
  then show ?thesis unfolding scan_case_4_def by (simp only: if_True skipped_refl)
next
  case False
  show ?thesis unfolding scan_case_4_def
    by (simp only: False if_False) (rule skipped_chunk [OF False scan_aligned_skipped])
qed

lemma scan_case_2_skipped: "skipped H sh pos (scan_case_2 H sh pos end_pos)"
proof (cases "is_potential_header H sh pos 2")
  case True
  then show ?thesis unfolding scan_case_2_def by (simp only: if_True skipped_refl)
next
  case False
  show ?thesis unfolding scan_case_2_def
    by (simp only: False if_False) (rule skipped_chunk [OF False scan_case_4_skipped])
qed

lemma scan_case_1_skipped: "skipped H sh pos (scan_case_1 H sh pos end_pos)"
proof (cases "is_potential_header H sh pos 1")
  case True
  then show ?thesis unfolding scan_case_1_def by (simp only: if_True skipped_refl)
next
  case False
  show ?thesis unfolding scan_case_1_def
    by (simp only: False if_False) (rule skipped_chunk [OF False scan_case_2_skipped])
qed

lemma scan_case_3_skipped: "skipped H sh pos (scan_case_3 H sh pos end_pos)"
proof (cases "is_potential_header H sh pos 1")
  case True
  then show ?thesis unfolding scan_case_3_def by (simp only: if_True skipped_refl)
next
  case False
  show ?thesis
  proof (cases "is_potential_header H sh (pos + 1) 4")
    case True
    have "skipped H sh pos (pos + 1)"
      by (rule skipped_chunk [OF False skipped_refl])
    then show ?thesis unfolding scan_case_3_def by (simp only: False True if_True if_False)
  next
    case F2: False
    have "skipped H sh pos (scan_aligned H sh (pos + 1 + 4) end_pos)"
      by (rule skipped_chunk [OF False skipped_chunk [OF F2 scan_aligned_skipped]])
    then show ?thesis unfolding scan_case_3_def by (simp only: False F2 if_False)
  qed
qed

lemma scan_case_6_skipped: "skipped H sh pos (scan_case_6 H sh pos end_pos)"
proof (cases "is_potential_header H sh pos 2")
  case True
  then show ?thesis unfolding scan_case_6_def by (simp only: if_True skipped_refl)
next
  case False
  show ?thesis unfolding scan_case_6_def
    by (simp only: False if_False) (rule skipped_chunk [OF False scan_aligned_skipped])
qed

lemma scan_case_5_skipped: "skipped H sh pos (scan_case_5 H sh pos end_pos)"
proof (cases "is_potential_header H sh pos 1")
  case True
  then show ?thesis unfolding scan_case_5_def by (simp only: if_True skipped_refl)
next
  case False
  show ?thesis unfolding scan_case_5_def
    by (simp only: False if_False) (rule skipped_chunk [OF False scan_case_6_skipped])
qed

lemma scan_case_7_skipped: "skipped H sh pos (scan_case_7 H sh pos end_pos)"
proof (cases "is_potential_header H sh pos 1")
  case True
  then show ?thesis unfolding scan_case_7_def by (simp only: if_True skipped_refl)
next
  case False
  show ?thesis unfolding scan_case_7_def
    by (simp only: False if_False) (rule skipped_chunk [OF False scan_aligned_skipped])
qed

lemma ScanRightForPotentialHeaderBytes_skipped:
  "skipped H sh pos (ScanRightForPotentialHeaderBytes H sh pos end_pos)"
proof -
  have "skipped H sh pos
     (if a = 1 then scan_case_1 H sh pos end_pos
      else if a = 2 then scan_case_2 H sh pos end_pos
      else if a = 4 then scan_case_4 H sh pos end_pos
      else if a = 3 then scan_case_3 H sh pos end_pos
      else if a = 5 then scan_case_5 H sh pos end_pos
      else if a = 6 then scan_case_6 H sh pos end_pos
      else if a = 7 then scan_case_7 H sh pos end_pos
      else scan_aligned H sh pos end_pos)" for a :: nat
    by (simp only: scan_case_1_skipped scan_case_2_skipped scan_case_3_skipped
        scan_case_4_skipped scan_case_5_skipped scan_case_6_skipped scan_case_7_skipped
        scan_aligned_skipped if_True if_False simp_thms split: if_split)
  then show ?thesis
    unfolding ScanRightForPotentialHeaderBytes_def Let_def .
qed

lemma ScanRightForPotentialHeaderBytes_ge:
  "pos \<le> ScanRightForPotentialHeaderBytes H sh pos end_pos"
  using ScanRightForPotentialHeaderBytes_skipped [of H sh pos end_pos]
  unfolding skipped_def by blast

lemma ScanRight_body_increases:
  assumes "ScanRight_body H sh pos nesting_depth = Inl (pos', d')"
  shows "pos < pos'"
proof -
  define q where "q = ScanRightForPotentialHeaderBytes H sh pos kShadowSize"
  have ge: "pos \<le> q" unfolding q_def by (rule ScanRightForPotentialHeaderBytes_ge)
  have "pos' = q + 1"
    using assms unfolding ScanRight_body_def Let_def q_def [symmetric]
    by (auto split: if_splits)
  then show ?thesis using ge by simp
qed

lemma ScanRight_body_bounded:
  assumes "ScanRight_body H sh pos nesting_depth = Inl (pos', d')"
  shows "ScanRightForPotentialHeaderBytes H sh pos kShadowSize \<noteq> kShadowSize"
  using assms unfolding ScanRight_body_def Let_def by (auto split: if_splits)


function ScanRight_loop :: "ShadowMarkerHelper \<Rightarrow> shadow \<Rightarrow> nat \<Rightarrow> int \<Rightarrow> nat option" where
  "ScanRight_loop H sh pos nesting_depth =
     (if pos < kShadowSize then
        (case ScanRight_body H sh pos nesting_depth of
           Inr result \<Rightarrow> result
         | Inl (pos', nesting_depth') \<Rightarrow> ScanRight_loop H sh pos' nesting_depth')
      else None)"
  by pat_completeness auto
termination
  by (relation "measure (\<lambda>(H, sh, pos, nesting_depth). kShadowSize - pos)")
     (auto dest: ScanRight_body_increases)

declare ScanRight_loop.simps [simp del]

definition ScanRightForBracketingBlockEnd ::
  "ShadowMarkerHelper \<Rightarrow> shadow \<Rightarrow> size_t \<Rightarrow> nat \<Rightarrow> nat option" where
  "ScanRightForBracketingBlockEnd H sh initial_nesting_depth cursor =
     (let pos = cursor;
          nesting_depth = sint initial_nesting_depth;
          nesting_depth = (if IsBlockStart H (sh pos) then nesting_depth - 1 else nesting_depth)
      in ScanRight_loop H sh pos nesting_depth)"

function skip_left_padding :: "ShadowMarkerHelper \<Rightarrow> shadow \<Rightarrow> nat \<Rightarrow> nat \<Rightarrow> nat" where
  "skip_left_padding H sh left right =
     (if left < right \<and> sh left = kHeapLeftPaddingMarker H
      then skip_left_padding H sh (left + 1) right else left)"
  by pat_completeness auto
termination
  by (relation "measure (\<lambda>(H, sh, left, right). right - left)") auto

declare skip_left_padding.simps [simp del]

function skip_right_padding :: "ShadowMarkerHelper \<Rightarrow> shadow \<Rightarrow> nat \<Rightarrow> nat \<Rightarrow> nat" where
  "skip_right_padding H sh left right =
     (if right > left \<and> sh (right - 1) = kHeapRightPaddingMarker H
      then skip_right_padding H sh left (right - 1) else right)"
  by pat_completeness auto
termination
  by (relation "measure (\<lambda>(H, sh, left, right). right)") auto

declare skip_right_padding.simps [simp del]

definition BlockInfoFromShadowImpl ::
  "ShadowMarkerHelper \<Rightarrow> shadow \<Rightarrow> size_t \<Rightarrow> uintptr_t \<Rightarrow> CompactBlockInfo option" where
  "BlockInfoFromShadowImpl H sh initial_nesting_depth addr =
     (let left = unat (addr div 8);
          right = left
      in case ScanLeftForBracketingBlockStart H sh initial_nesting_depth left of
           None \<Rightarrow> None
         | Some left \<Rightarrow>
        (case ScanRightForBracketingBlockEnd H sh initial_nesting_depth right of
           None \<Rightarrow> None
         | Some right \<Rightarrow>
        (let right = right + 1;
             info_block = (of_nat left * 8 :: uintptr_t);
             info_block_size = ((of_nat right - of_nat left) * 8 :: size_t);
             body_size_mod = (ucast (GetBlockStartData H (sh left)) :: size_t);
             info_is_nested = IsNestedBlockStart H (sh left);
             left = left + 1;
             left = skip_left_padding H sh left right;
             right = right - 1;
             right = skip_right_padding H sh left right;
             body = (of_nat left * 8 :: uintptr_t);
             body_size = ((of_nat right - of_nat left) * 8 :: size_t);
             body_size = (if body_size_mod > 0 then body_size - 8 + body_size_mod
                          else body_size);
             info_header_size = body - info_block;
             info_trailer_size = info_block_size - body_size - info_header_size
         in Some \<lparr>block = info_block, block_size = info_block_size,
                   header_size = info_header_size, trailer_size = info_trailer_size,
                   is_nested = info_is_nested\<rparr>)))"

definition BlockInfoFromShadow ::
  "ShadowMarkerHelper \<Rightarrow> shadow \<Rightarrow> uintptr_t \<Rightarrow> CompactBlockInfo option" where
  "BlockInfoFromShadow H sh addr = BlockInfoFromShadowImpl H sh 0 addr"


inductive ScanLeft_reaches ::
  "ShadowMarkerHelper \<Rightarrow> shadow \<Rightarrow> nat \<times> int \<Rightarrow> nat \<times> int \<Rightarrow> bool"
  for H :: ShadowMarkerHelper and sh :: shadow where
  ScanLeft_start: "ScanLeft_reaches H sh s s"
| ScanLeft_next:
    "ScanLeft_reaches H sh s (left, nesting_depth) \<Longrightarrow>
     ScanLeft_body H sh left nesting_depth = Inl (left', nesting_depth') \<Longrightarrow>
     ScanLeft_reaches H sh s (left', nesting_depth')"

inductive ScanRight_reaches ::
  "ShadowMarkerHelper \<Rightarrow> shadow \<Rightarrow> nat \<times> int \<Rightarrow> nat \<times> int \<Rightarrow> bool"
  for H :: ShadowMarkerHelper and sh :: shadow where
  ScanRight_start: "ScanRight_reaches H sh s s"
| ScanRight_next:
    "ScanRight_reaches H sh s (pos, nesting_depth) \<Longrightarrow> pos < kShadowSize \<Longrightarrow>
     ScanRight_body H sh pos nesting_depth = Inl (pos', nesting_depth') \<Longrightarrow>
     ScanRight_reaches H sh s (pos', nesting_depth')"

definition ScanLeft_initial :: "ShadowMarkerHelper \<Rightarrow> shadow \<Rightarrow> size_t \<Rightarrow> nat \<Rightarrow> nat \<times> int" where
  "ScanLeft_initial H sh initial_nesting_depth cursor =
     (cursor, if IsBlockEnd H (sh cursor) then sint initial_nesting_depth - 1
              else sint initial_nesting_depth)"

definition ScanRight_initial :: "ShadowMarkerHelper \<Rightarrow> shadow \<Rightarrow> size_t \<Rightarrow> nat \<Rightarrow> nat \<times> int" where
  "ScanRight_initial H sh initial_nesting_depth cursor =
     (cursor, if IsBlockStart H (sh cursor) then sint initial_nesting_depth - 1
              else sint initial_nesting_depth)"

definition non_nested_start :: "ShadowMarkerHelper \<Rightarrow> uint8 \<Rightarrow> bool" where
  "non_nested_start H m \<longleftrightarrow> IsBlockStart H m \<and> \<not> IsNestedBlockStart H m"

definition non_nested_end :: "ShadowMarkerHelper \<Rightarrow> uint8 \<Rightarrow> bool" where
  "non_nested_end H m \<longleftrightarrow> IsBlockEnd H m \<and> \<not> IsNestedBlockEnd H m"

subsection \<open>What the round trip of a block assumes\<close>

text \<open>
  Modelled from the spec: \<open>markers_wf\<close> states what the round trip needs of
  \<open>ShadowMarkerHelper\<close> (shadow_marker.h, not among the sources), as section 3 of the spec
  describes the markers: an active block-start marker built for the data \<open>d\<close> in 0..7
  is a block start, carries \<open>d\<close> in its low bits and the nested flag it was built with,
  and is an active left redzone; an active block-end marker is a block end, not a block
  start, and an active right redzone; the left and right padding markers are active
  left and right redzones and neither block starts nor block ends; the markers 0..7 are
  neither, the markers 1..7 are not redzone markers, and all the named markers are
  different from 0..7 and from each other.

  Modelled from the spec: \<open>block_layout_ok\<close> states the layout that \<open>BlockPlanLayout\<close> and
  \<open>BlockInitialize\<close> (block.cc, not among the sources) produce, section 3 of the spec: the
  block lies in the address space above the first 64 KiB, the header with its padding is
  at least one granule and ends at the 8-aligned body, and at least 8 bytes of trailer
  (with its padding) follow the body inside the block. With the DCHECKs of
  \<open>PoisonAllocatedBlock\<close> the block and its size are 8-aligned too.

  \<open>stamp\<close> is \<open>PoisonAllocatedBlock\<close> on indices and counts that are natural numbers; it
  is used in the proof only. \<open>example_block\<close> is a block of 10 bytes at alignment 16.
\<close>

definition markers_wf :: "ShadowMarkerHelper \<Rightarrow> bool" where
  "markers_wf H \<longleftrightarrow>
     (\<forall>n d. d \<le> 7 \<longrightarrow>
        IsBlockStart H (BuildBlockStart H True n d) \<and>
        IsNestedBlockStart H (BuildBlockStart H True n d) = n \<and>
        GetBlockStartData H (BuildBlockStart H True n d) = d \<and>
        IsActiveLeftRedzone H (BuildBlockStart H True n d)) \<and>
     (\<forall>n. IsBlockEnd H (BuildBlockEnd H True n) \<and>
        \<not> IsBlockStart H (BuildBlockEnd H True n) \<and>
        IsActiveRightRedzone H (BuildBlockEnd H True n) \<and>
        7 < BuildBlockEnd H True n \<and>
        BuildBlockEnd H True n \<noteq> kHeapFreedMarker H \<and>
        BuildBlockEnd H True n \<noteq> kHeapLeftPaddingMarker H) \<and>
     (\<not> IsBlockStart H (kHeapLeftPaddingMarker H) \<and>
      \<not> IsBlockEnd H (kHeapLeftPaddingMarker H) \<and>
      IsActiveLeftRedzone H (kHeapLeftPaddingMarker H) \<and>
      7 < kHeapLeftPaddingMarker H) \<and>
     (\<not> IsBlockStart H (kHeapRightPaddingMarker H) \<and>
      \<not> IsBlockEnd H (kHeapRightPaddingMarker H) \<and>
      IsActiveRightRedzone H (kHeapRightPaddingMarker H) \<and>
      7 < kHeapRightPaddingMarker H \<and>
      kHeapRightPaddingMarker H \<noteq> kHeapLeftPaddingMarker H) \<and>
     (\<forall>k. k \<le> 7 \<longrightarrow>
        \<not> IsBlockStart H k \<and> \<not> IsBlockEnd H k \<and> (k \<noteq> 0 \<longrightarrow> \<not> IsRedzone H k))"

definition block_layout_ok :: "BlockInfo \<Rightarrow> bool" where
  "block_layout_ok info \<longleftrightarrow>
     kAddressLowerBound \<le> unat (info_block info) \<and>
     unat (info_block info) + unat (info_block_size info) \<le> 2 ^ 31 \<and>
     unat (info_block info) + 8 \<le> unat (info_body info) \<and>
     info_body info AND 7 = 0 \<and>
     unat (info_body info) + unat (info_body_size info) + 8 \<le>
       unat (info_block info) + unat (info_block_size info)"

definition stamp ::
  "ShadowMarkerHelper \<Rightarrow> shadow \<Rightarrow> nat \<Rightarrow> nat \<Rightarrow> nat \<Rightarrow> nat \<Rightarrow> uint8 \<Rightarrow> bool \<Rightarrow> shadow" where
  "stamp H sh b Ln Bn Rn m nested =
     (let sh = memset sh b (BuildBlockStart H True nested m) 1;
          sh = memset sh (b + 1) (kHeapLeftPaddingMarker H) (Ln - 1);
          sh = memset sh (b + Ln) 0 Bn;
          sh = (if m > 0 then sh(b + Ln + Bn - 1 := m) else sh);
          sh = memset sh (b + Ln + Bn) (kHeapRightPaddingMarker H) (Rn - 1);
          sh = memset sh (b + Ln + Bn + Rn - 1) (BuildBlockEnd H True nested) 1
      in sh)"

definition example_block :: BlockInfo where
  "example_block = \<lparr>info_block = 0x10000, info_block_size = 48, info_header_padding_size = 0,
                      info_body = 0x10010, info_body_size = 10, info_header_is_nested = False\<rparr>"

subsection \<open>Word facts used below\<close>

lemma unat_drop_bit3: "unat (drop_bit 3 (a :: 32 word)) = unat a div 8"
  by (simp add: drop_bit_eq_div unat_div)

lemma unat_and7: "unat ((a :: 32 word) AND 7) = unat a mod 8"
proof -
  have "a AND 7 = take_bit 3 a" by (simp add: take_bit_eq_mask mask_eq_exp_minus_1)
  then show ?thesis by (simp add: unat_mod take_bit_eq_mod)
qed

lemma and7_eq0_iff: "((a :: 32 word) AND 7 = 0) \<longleftrightarrow> unat a mod 8 = 0"
  using unat_and7 [of a] by (metis unat_eq_zero)

lemma unat8_less: "unat (a :: 8 word) < 256"
  using unsigned_less [of a] by simp

lemma unat32_less: "unat (a :: 32 word) < 4294967296"
  using unsigned_less [of a] by simp

lemma unat_ucast_8_32: "unat (ucast (a :: 8 word) :: 32 word) = unat a"
  using unat8_less [of a] by (simp add: unsigned_ucast_eq take_bit_eq_mod)

lemma unat_ucast_32_8: "unat (ucast (a :: 32 word) :: 8 word) = unat a mod 256"
  by (simp add: unsigned_ucast_eq take_bit_eq_mod)

lemma memset_apply: "memset sh i v n j = (if i \<le> j \<and> j < i + n then v else sh j)"
  by (simp add: memset_def)

lemma unat_index_succ: "unat (drop_bit 3 (a :: 32 word) + 1) = unat a div 8 + 1"
proof -
  have "unat a div 8 + 1 < 2 ^ 32" using unat32_less [of a] by simp
  then show ?thesis
    by (simp add: unat_word_ariths unat_drop_bit3)
qed

lemma ucast_and7: "(ucast ((a :: 32 word) AND 7) :: 8 word) = of_nat (unat a mod 8)"
proof -
  have "(ucast (a AND 7) :: 8 word) = of_nat (unat (a AND 7))"
    by simp
  then show ?thesis by (simp add: unat_and7)
qed

lemma Poison_alt:
  "Poison sh addr sz m =
     (if unat addr mod 8 = 0 then memset sh (unat addr div 8) m (unat sz div 8)
      else memset (sh(unat addr div 8 := of_nat (unat addr mod 8))) (unat addr div 8 + 1) m
             (unat sz div 8))"
proof (cases "addr AND 7 = 0")
  case True
  then have m: "unat addr mod 8 = 0" by (simp only: and7_eq0_iff)
  show ?thesis unfolding Poison_def Let_def
    by (simp only: True m unat_drop_bit3 if_True if_False simp_thms prod.case)
next
  case False
  then have m: "unat addr mod 8 \<noteq> 0" using and7_eq0_iff by blast
  show ?thesis unfolding Poison_def Let_def
    by (simp only: False m unat_drop_bit3 unat_index_succ ucast_and7 if_True if_False simp_thms prod.case)
qed

section \<open>Poison\<close>

text \<open>
  C2 (as amended). \<open>Poison(addr, size, marker)\<close> requires only that \<open>addr + size\<close> is
  granule-aligned; \<open>addr\<close> itself may lie inside a granule. The \<open>size >> 3\<close> shadow bytes
  from the first granule boundary at or after \<open>addr\<close> get the marker: none at all when
  \<open>size\<close> is less than 8. When \<open>addr\<close> is not granule-aligned, the shadow byte of the
  granule holding \<open>addr\<close>, at the leading end of the range, is set to the
  partial-length form \<open>addr mod 8\<close>, a value in 1..7, and not to the marker. Every other
  shadow byte keeps its value.
\<close>

theorem Poison_stamps:
  assumes "Poison_DCHECK addr sz"
  shows "Poison sh addr sz m j =
     (if unat addr mod 8 \<noteq> 0 \<and> j = unat addr div 8 then of_nat (unat addr mod 8)
      else if (unat addr + 7) div 8 \<le> j \<and> j < (unat addr + 7) div 8 + unat sz div 8 then m
      else sh j)"
proof -
  define i0 k n r where "i0 = unat addr div 8" and "k = unat addr mod 8"
    and "n = unat sz div 8" and "r = (unat addr + 7) div 8"
  have r: "r = (if k = 0 then i0 else i0 + 1)"
    unfolding r_def k_def i0_def by presburger
  have "Poison sh addr sz m =
     (if k = 0 then memset sh i0 m n else memset (sh(i0 := of_nat k)) (i0 + 1) m n)"
    unfolding i0_def k_def n_def by (rule Poison_alt)
  then have "Poison sh addr sz m j =
     (if k \<noteq> 0 \<and> j = i0 then of_nat k else if r \<le> j \<and> j < r + n then m else sh j)"
    by (simp add: r memset_apply)
  then show ?thesis
    unfolding i0_def k_def n_def r_def .
qed

lemma Poison_DCHECK_example: "Poison_DCHECK 0x10004 12"
  by (simp add: Poison_DCHECK_def Let_def kShadowSize_def drop_bit_eq_div)

lemma Poison_DCHECK_small: "Poison_DCHECK 0x10004 4"
  by (simp add: Poison_DCHECK_def Let_def kShadowSize_def drop_bit_eq_div)

theorem Poison_stamps_witness:
  "Poison_DCHECK 0x10004 12 \<and>
   Poison (\<lambda>_. 0) 0x10004 12 0xFA 0x2000 = 4 \<and>
   Poison (\<lambda>_. 0) 0x10004 12 0xFA 0x2001 = 0xFA \<and>
   Poison (\<lambda>_. 0) 0x10004 12 0xFA 0x2002 = 0 \<and>
   Poison_DCHECK 0x10004 4 \<and>
   Poison (\<lambda>_. 0) 0x10004 4 0xFA 0x2000 = 4 \<and>
   Poison (\<lambda>_. 0) 0x10004 4 0xFA 0x2001 = 0"
  using Poison_stamps [OF Poison_DCHECK_example, of "\<lambda>_. 0" "0xFA"]
    Poison_stamps [OF Poison_DCHECK_small, of "\<lambda>_. 0" "0xFA"]
  by (simp add: Poison_DCHECK_example Poison_DCHECK_small)

text \<open>
  C2 as the spec words it fails. The first call below meets the source's only alignment
  \<open>DCHECK\<close> although \<open>addr\<close> is not granule-aligned; the partial-length byte is the first
  shadow byte of its range, and the last shadow byte of its range holds the marker. The
  second call has an unaligned trailing end, which the \<open>DCHECK\<close> rejects; where the check
  is compiled out, the shadow byte of the trailing granule is left as it was: neither the
  marker nor a partial length.
\<close>

theorem Poison_partial_counterexample:
  "Poison_DCHECK 0x10004 12 \<and> (0x10004 :: uintptr_t) AND 7 \<noteq> 0 \<and>
   Poison (\<lambda>_. 0) 0x10004 12 0xFA 0x2000 = 4 \<and>
   Poison (\<lambda>_. 0) 0x10004 12 0xFA 0x2001 = 0xFA \<and>
   \<not> Poison_DCHECK 0x10000 12 \<and>
   Poison (\<lambda>_. 0) 0x10000 12 0xFA 0x2000 = 0xFA \<and>
   Poison (\<lambda>_. 0) 0x10000 12 0xFA 0x2001 = 0"
  by (simp add: Poison_DCHECK_def Poison_def Let_def kShadowSize_def drop_bit_eq_div
      memset_apply)

section \<open>Unpoison and IsAccessible\<close>

lemma of_nat_mod8_eq0: "(of_nat (n mod 8) :: uint8) = 0 \<longleftrightarrow> n mod 8 = 0"
proof -
  have "unat (of_nat (n mod 8) :: uint8) = n mod 8"
    by (simp add: unat_of_nat)
  then show ?thesis
    by (metis unat_eq_zero)
qed

lemma unat_of_nat_mod8: "unat (of_nat (n mod 8) :: uint8) = n mod 8"
  by (simp add: unat_of_nat)

lemma Unpoison_alt:
  "Unpoison sh addr sz =
     (if unat sz mod 8 = 0 then memset sh (unat addr div 8) 0 (unat sz div 8)
      else (memset sh (unat addr div 8) 0 (unat sz div 8))
             (unat addr div 8 + unat sz div 8 := of_nat (unat sz mod 8)))"
proof (cases "unat sz mod 8 = 0")
  case True
  then have r: "(ucast (sz AND 7) :: uint8) = 0"
    using of_nat_mod8_eq0 [of "unat sz"] by (simp add: ucast_and7)
  show ?thesis
    unfolding Unpoison_def Let_def kHeapAddressableMarker_def
    by (simp only: unat_drop_bit3 r True if_P if_not_P simp_thms)
next
  case False
  then have r: "(ucast (sz AND 7) :: uint8) \<noteq> 0"
    using of_nat_mod8_eq0 [of "unat sz"] by (simp add: ucast_and7)
  show ?thesis
    unfolding Unpoison_def Let_def kHeapAddressableMarker_def
    by (simp only: unat_drop_bit3 r False if_P if_not_P simp_thms) (simp only: ucast_and7)
qed

lemma IsAccessible_alt:
  "IsAccessible H sh p =
     (if sh (unat p div 8) = 0 then True else if IsRedzone H (sh (unat p div 8)) then False
      else unat p mod 8 < unat (sh (unat p div 8)))"
  unfolding IsAccessible_def Let_def
  by (simp only: unat_drop_bit3 word_less_nat_alt unat_and7 unat_ucast_8_32)


lemma Unpoison_at:
  "Unpoison sh addr sz j =
     (if unat sz mod 8 \<noteq> 0 \<and> j = unat addr div 8 + unat sz div 8
      then of_nat (unat sz mod 8)
      else if unat addr div 8 \<le> j \<and> j < unat addr div 8 + unat sz div 8 then 0
      else sh j)"
proof -
  define i0 k n where "i0 = unat addr div 8" and "k = unat sz mod 8"
    and "n = unat sz div 8"
  have "Unpoison sh addr sz =
     (if k = 0 then memset sh i0 0 n else (memset sh i0 0 n)(i0 + n := of_nat k))"
    unfolding i0_def k_def n_def by (rule Unpoison_alt)
  then have "Unpoison sh addr sz j =
     (if k \<noteq> 0 \<and> j = i0 + n then of_nat k
      else if i0 \<le> j \<and> j < i0 + n then 0 else sh j)"
    by (simp add: memset_apply)
  then show ?thesis
    unfolding i0_def k_def n_def .
qed

lemma granule_split:
  fixes a s P :: nat
  assumes "a mod 8 = 0" "a \<le> P" "P < a + s"
  shows "(a div 8 \<le> P div 8 \<and> P div 8 < a div 8 + s div 8) \<or>
         (P div 8 = a div 8 + s div 8 \<and> P mod 8 < s mod 8)"
proof -
  define q r i n k where "q = P div 8" and "r = P mod 8" and "i = a div 8"
    and "n = s div 8" and "k = s mod 8"
  have P: "P = 8 * q + r" and r: "r < 8" unfolding q_def r_def by simp_all
  have a: "a = 8 * i"
    unfolding i_def using assms(1) by (metis mod_0_imp_dvd dvd_mult_div_cancel)
  have s: "s = 8 * n + k" and k: "k < 8" unfolding n_def k_def by simp_all
  have "(i \<le> q \<and> q < i + n) \<or> (q = i + n \<and> r < k)"
    using assms(2,3) r k unfolding P a s by arith
  then show ?thesis unfolding q_def r_def i_def n_def k_def .
qed

lemma partial_marker_range:
  assumes "k \<noteq> 0" "k < 8"
  shows "(1 :: uint8) \<le> of_nat k \<and> (of_nat k :: uint8) \<le> 7"
proof -
  have "unat (of_nat k :: uint8) = k" using assms(2) by (simp add: unat_of_nat)
  then show ?thesis using assms by (simp add: word_le_nat_alt)
qed

lemma IsAccessible_cases:
  assumes "sh' (unat p div 8) = m"
  shows "IsAccessible H sh' p =
     (if m = 0 then True else if IsRedzone H m then False else unat p mod 8 < unat m)"
  using assms by (simp only: IsAccessible_alt)

lemma word8_le7_cases:
  assumes "(k :: uint8) \<le> 7"
  shows "k = 0 \<or> k = 1 \<or> k = 2 \<or> k = 3 \<or> k = 4 \<or> k = 5 \<or> k = 6 \<or> k = 7"
proof -
  have "unat k \<le> 7" using assms by (simp add: word_le_nat_alt)
  then have "unat k = 0 \<or> unat k = 1 \<or> unat k = 2 \<or> unat k = 3 \<or> unat k = 4 \<or>
             unat k = 5 \<or> unat k = 6 \<or> unat k = 7" by arith
  then show ?thesis by (simp add: word_unat_eq_iff)
qed

lemma syzygy_partial_not_redzone:
  "\<forall>k. 1 \<le> k \<and> k \<le> 7 \<longrightarrow> \<not> IsRedzone syzygy_markers k"
proof (intro allI impI)
  fix k :: uint8 assume "1 \<le> k \<and> k \<le> 7"
  then have "k = 0 \<or> k = 1 \<or> k = 2 \<or> k = 3 \<or> k = 4 \<or> k = 5 \<or> k = 6 \<or> k = 7"
    using word8_le7_cases by blast
  then show "\<not> IsRedzone syzygy_markers k"
    by (auto simp: syzygy_markers_def)
qed

lemma IsRightRedzone_alt:
  "IsRightRedzone H sh address =
     (if sh (unat address div 8) = 0 then False
      else if sh (unat address div 8) \<le> 7 then
        (if unat address div 8 = kShadowSize then False
         else if \<not> IsActiveRightRedzone H (sh (unat address div 8 + 1)) then False
         else unat address mod 8 \<ge> unat (sh (unat address div 8)))
      else IsActiveRightRedzone H (sh (unat address div 8)))"
  unfolding IsRightRedzone_def Let_def kHeapPartiallyAddressableByte7_def
  by (simp only: unat_drop_bit3 word_le_nat_alt unat_and7 unat_ucast_8_32)

text \<open>
  C3. For an 8-aligned \<open>addr\<close> and any \<open>size\<close> (within the shadow array), after
  \<open>Unpoison(addr, size)\<close> the addresses \<open>p\<close> of \<open>[addr, addr + size)\<close> for which
  \<open>IsAccessible(p)\<close> holds are all of \<open>[addr, addr + size)\<close>. When \<open>size mod 8 = k\<close> is not
  zero, the last shadow byte holds the partial marker \<open>k\<close>, and a byte of that granule is
  accessible iff its offset in the granule is less than \<open>k\<close>. The helper's \<open>IsRedzone\<close>
  is assumed false on the partial markers 1..7.
\<close>

theorem Unpoison_accessible:
  assumes dcheck: "Unpoison_DCHECK addr sz"
      and partial: "\<forall>k. 1 \<le> k \<and> k \<le> 7 \<longrightarrow> \<not> IsRedzone H k"
  shows "{p. unat addr \<le> unat p \<and> unat p < unat addr + unat sz \<and>
             IsAccessible H (Unpoison sh addr sz) p} =
         {p. unat addr \<le> unat p \<and> unat p < unat addr + unat sz} \<and>
         (unat sz mod 8 \<noteq> 0 \<longrightarrow>
            Unpoison sh addr sz (unat addr div 8 + unat sz div 8) = of_nat (unat sz mod 8) \<and>
            (\<forall>p. unat p div 8 = unat addr div 8 + unat sz div 8 \<longrightarrow>
                 (IsAccessible H (Unpoison sh addr sz) p \<longleftrightarrow>
                  unat p mod 8 < unat sz mod 8)))"
proof -
  define a s i0 n k where "a = unat addr" and "s = unat sz" and "i0 = a div 8"
    and "n = s div 8" and "k = s mod 8"
  define sh' where "sh' = Unpoison sh addr sz"
  have al: "a mod 8 = 0"
    using dcheck unfolding Unpoison_DCHECK_def a_def by (simp only: and7_eq0_iff)
  have at: "\<And>j. sh' j = (if k \<noteq> 0 \<and> j = i0 + n then of_nat k
                         else if i0 \<le> j \<and> j < i0 + n then 0 else sh j)"
    unfolding sh'_def i0_def n_def k_def a_def s_def by (rule Unpoison_at)
  have klt: "k < 8" unfolding k_def by simp
  have uk: "unat (of_nat k :: uint8) = k"
    unfolding k_def by (rule unat_of_nat_mod8)
  have nr: "\<not> IsRedzone H (of_nat k)" if "k \<noteq> 0"
    using partial_marker_range [OF that klt] partial by blast
  have nz: "(of_nat k :: uint8) \<noteq> 0" if "k \<noteq> 0"
    using that uk by (metis unat_eq_zero)
  have last: "IsAccessible H sh' p \<longleftrightarrow> unat p mod 8 < k"
    if "k \<noteq> 0" "unat p div 8 = i0 + n" for p
  proof -
    have "sh' (unat p div 8) = of_nat k" using that by (simp only: at) simp
    from IsAccessible_cases [where sh'=sh' and p=p and H=H, OF this] show ?thesis
      using nz [OF that(1)] nr [OF that(1)] by (simp only: uk if_False)
  qed
  have inner: "IsAccessible H sh' p"
    if "i0 \<le> unat p div 8" "unat p div 8 < i0 + n" for p
  proof -
    define q where "q = unat p div 8"
    have "sh' q = 0" using that unfolding q_def [symmetric] by (simp add: at)
    from IsAccessible_cases [where sh'=sh' and p=p and H=H, OF this [unfolded q_def]] show ?thesis by simp
  qed
  have all: "IsAccessible H sh' p" if "a \<le> unat p" "unat p < a + s" for p
  proof -
    have "(i0 \<le> unat p div 8 \<and> unat p div 8 < i0 + n) \<or>
               (unat p div 8 = i0 + n \<and> unat p mod 8 < k)"
      unfolding i0_def n_def k_def using al that by (rule granule_split)
    then show "IsAccessible H sh' p"
    proof
      assume "i0 \<le> unat p div 8 \<and> unat p div 8 < i0 + n"
      then show ?thesis using inner by blast
    next
      assume h: "unat p div 8 = i0 + n \<and> unat p mod 8 < k"
      then have "k \<noteq> 0" by (cases k) simp_all
      then show ?thesis using last h by blast
    qed
  qed
  have "{p. a \<le> unat p \<and> unat p < a + s \<and> IsAccessible H sh' p} =
        {p. a \<le> unat p \<and> unat p < a + s}"
    using all by blast
  moreover have "k \<noteq> 0 \<longrightarrow> sh' (i0 + n) = of_nat k \<and>
      (\<forall>p. unat p div 8 = i0 + n \<longrightarrow> (IsAccessible H sh' p \<longleftrightarrow> unat p mod 8 < k))"
    using last by (simp add: at)
  ultimately show ?thesis
    unfolding sh'_def i0_def n_def k_def a_def s_def by blast
qed


lemma Unpoison_DCHECK_example: "Unpoison_DCHECK 0x10000 12"
  by (simp add: Unpoison_DCHECK_def kShadowSize_def drop_bit_eq_div)

theorem Unpoison_accessible_witness:
  "Unpoison_DCHECK 0x10000 12 \<and>
   Unpoison (\<lambda>_. 0xFD) 0x10000 12 0x2001 = 4 \<and>
   IsAccessible syzygy_markers (Unpoison (\<lambda>_. 0xFD) 0x10000 12) 0x1000B \<and>
   \<not> IsAccessible syzygy_markers (Unpoison (\<lambda>_. 0xFD) 0x10000 12) 0x1000C"
proof -
  note t = Unpoison_accessible [OF Unpoison_DCHECK_example syzygy_partial_not_redzone,
      of "\<lambda>_. 0xFD"]
  have m: "unat (12 :: 32 word) mod 8 = 4" "unat (0x10000 :: 32 word) div 8 = 0x2000"
    "unat (12 :: 32 word) div 8 = 1"
    by simp_all
  from t have b: "Unpoison (\<lambda>_. 0xFD) 0x10000 12 (0x2000 + 1) = 4"
    and c: "\<forall>p. unat p div 8 = 0x2000 + 1 \<longrightarrow>
        IsAccessible syzygy_markers (Unpoison (\<lambda>_. 0xFD) 0x10000 12) p = (unat p mod 8 < 4)"
    unfolding m by simp_all
  have "IsAccessible syzygy_markers (Unpoison (\<lambda>_. 0xFD) 0x10000 12) 0x1000B"
    using c [rule_format, of "0x1000B"] by simp
  moreover have "\<not> IsAccessible syzygy_markers (Unpoison (\<lambda>_. 0xFD) 0x10000 12) 0x1000C"
    using c [rule_format, of "0x1000C"] by simp
  ultimately show ?thesis
    using b Unpoison_DCHECK_example by simp
qed

section \<open>IsRightRedzone\<close>

text \<open>
  C10. For an address whose shadow byte is a partial marker \<open>k\<close> in 1..7,
  \<open>IsRightRedzone\<close> is true iff the offset of the address in its granule is at least \<open>k\<close>
  and the next shadow byte is an active right-redzone marker; for the marker 0 it is
  false; for any other marker it is true iff that marker is an active right-redzone
  marker. The address is one whose next shadow byte lies inside the array.
\<close>

theorem IsRightRedzone_cases:
  assumes "unat address div 8 + 1 < kShadowSize"
  shows "(sh (unat address div 8) = 0 \<longrightarrow> \<not> IsRightRedzone H sh address) \<and>
         (1 \<le> sh (unat address div 8) \<and> sh (unat address div 8) \<le> 7 \<longrightarrow>
            (IsRightRedzone H sh address \<longleftrightarrow>
               unat (sh (unat address div 8)) \<le> unat address mod 8 \<and>
               IsActiveRightRedzone H (sh (unat address div 8 + 1)))) \<and>
         (7 < sh (unat address div 8) \<longrightarrow>
            (IsRightRedzone H sh address \<longleftrightarrow> IsActiveRightRedzone H (sh (unat address div 8))))"
proof -
  define q r m where "q = unat address div 8" and "r = unat address mod 8" and "m = sh q"
  have ne: "q \<noteq> kShadowSize" using assms unfolding q_def by simp
  have alt: "IsRightRedzone H sh address =
     (if m = 0 then False
      else if m \<le> 7 then
        (if \<not> IsActiveRightRedzone H (sh (q + 1)) then False else r \<ge> unat m)
      else IsActiveRightRedzone H m)"
    unfolding m_def q_def r_def using ne [unfolded q_def]
    by (simp only: IsRightRedzone_alt if_False)
  have one: "1 \<le> m \<Longrightarrow> m \<noteq> 0" by auto
  have seven: "7 < m \<Longrightarrow> m \<noteq> 0 \<and> \<not> m \<le> 7" by auto
  have "(m = 0 \<longrightarrow> \<not> IsRightRedzone H sh address) \<and>
        (1 \<le> m \<and> m \<le> 7 \<longrightarrow>
           (IsRightRedzone H sh address \<longleftrightarrow> unat m \<le> r \<and> IsActiveRightRedzone H (sh (q + 1)))) \<and>
        (7 < m \<longrightarrow> (IsRightRedzone H sh address \<longleftrightarrow> IsActiveRightRedzone H m))"
    using one seven by (auto simp: alt)
  then show ?thesis unfolding m_def q_def r_def .
qed


theorem IsRightRedzone_cases_witness:
  "unat (0x1000C :: uintptr_t) div 8 + 1 < kShadowSize \<and>
   IsRightRedzone syzygy_markers ((\<lambda>_. 0)(0x2001 := 4, 0x2002 := 0xFB)) 0x1000C \<and>
   \<not> IsRightRedzone syzygy_markers ((\<lambda>_. 0)(0x2001 := 4, 0x2002 := 0xFB)) 0x1000B"
proof -
  have h1: "unat (0x1000C :: uintptr_t) div 8 + 1 < kShadowSize"
    and h2: "unat (0x1000B :: uintptr_t) div 8 + 1 < kShadowSize"
    by (simp_all add: kShadowSize_def)
  show ?thesis
    using IsRightRedzone_cases [OF h1, of "(\<lambda>_. 0)(0x2001 := 4, 0x2002 := 0xFB)" syzygy_markers]
      IsRightRedzone_cases [OF h2, of "(\<lambda>_. 0)(0x2001 := 4, 0x2002 := 0xFB)" syzygy_markers]
      h1
    by (simp add: syzygy_markers_def)
qed


section \<open>MarkAsFreed\<close>

lemma freed_range_empty: "freed_range H sh a a = sh"
  by (rule ext) (auto simp: freed_range_def)

lemma freed_range_keep:
  assumes "a < b" "IsActiveLeftRedzone H (sh a) \<or> IsActiveRightRedzone H (sh a)"
  shows "freed_range H sh (Suc a) b = freed_range H sh a b"
proof (rule ext)
  fix j show "freed_range H sh (Suc a) b j = freed_range H sh a b j"
  proof (cases "j = a")
    case True then show ?thesis using assms by (auto simp: freed_range_def)
  next
    case False
    then have "(Suc a \<le> j) = (a \<le> j)" by arith
    then show ?thesis by (simp add: freed_range_def)
  qed
qed

lemma freed_range_mark:
  assumes "a < b" "\<not> (IsActiveLeftRedzone H (sh a) \<or> IsActiveRightRedzone H (sh a))"
  shows "freed_range H (sh(a := kHeapFreedMarker H)) (Suc a) b = freed_range H sh a b"
proof (rule ext)
  fix j show "freed_range H (sh(a := kHeapFreedMarker H)) (Suc a) b j = freed_range H sh a b j"
  proof (cases "j = a")
    case True then show ?thesis using assms by (simp add: freed_range_def)
  next
    case False
    then have "(Suc a \<le> j) = (a \<le> j)" by arith
    then show ?thesis using False by (simp add: freed_range_def)
  qed
qed

lemma freed_range_compose:
  assumes "a \<le> b" "b \<le> c"
  shows "freed_range H (freed_range H sh a b) b c = freed_range H sh a c"
  using assms by (auto simp: freed_range_def fun_eq_iff)

lemma MarkAsFreedImpl8_correct:
  "MarkAsFreedImpl8 H sh a (a + n) = Some (freed_range H sh a (a + n))"
proof (induction n arbitrary: sh a)
  case 0
  show ?case by (subst MarkAsFreedImpl8.simps) (simp add: freed_range_empty)
next
  case (Suc n)
  have ne: "a \<noteq> a + Suc n" by simp
  have lt: "a < a + Suc n" by simp
  have e: "a + Suc n = Suc a + n" by simp
  show ?case
  proof (cases "IsActiveLeftRedzone H (sh a) \<or> IsActiveRightRedzone H (sh a)")
    case True
    have "MarkAsFreedImpl8 H sh a (a + Suc n) = MarkAsFreedImpl8 H sh (Suc a) (Suc a + n)"
      using True by (subst MarkAsFreedImpl8.simps) simp
    also have "\<dots> = Some (freed_range H sh (Suc a) (Suc a + n))" by (rule Suc.IH)
    also have "\<dots> = Some (freed_range H sh a (a + Suc n))"
      using freed_range_keep [where H=H and sh=sh, OF lt True] by (simp only: e)
    finally show ?thesis .
  next
    case False
    have "MarkAsFreedImpl8 H sh a (a + Suc n) =
          MarkAsFreedImpl8 H (sh(a := kHeapFreedMarker H)) (Suc a) (Suc a + n)"
      using False by (subst MarkAsFreedImpl8.simps) simp
    also have "\<dots> = Some (freed_range H (sh(a := kHeapFreedMarker H)) (Suc a) (Suc a + n))"
      by (rule Suc.IH)
    also have "\<dots> = Some (freed_range H sh a (a + Suc n))"
      using freed_range_mark [where H=H and sh=sh, OF lt False] by (simp only: e)
    finally show ?thesis .
  qed
qed


lemma load_bytes_zero:
  assumes "load_bytes sh a 8 = replicate 8 0" "a \<le> j" "j < a + 8"
  shows "sh j = 0"
proof -
  have "j - a < 8" using assms(2,3) by arith
  then have "load_bytes sh a 8 ! (j - a) = sh (a + (j - a))"
    unfolding load_bytes_def by (simp del: upt_Suc)
  moreover have "replicate 8 (0 :: uint8) ! (j - a) = 0"
    using \<open>j - a < 8\<close> by (simp only: nth_replicate)
  ultimately show ?thesis using assms(1,2) by simp
qed

lemma memset_freed_range:
  assumes "load_bytes sh a 8 = replicate 8 0"
      and "\<not> IsActiveLeftRedzone H 0" "\<not> IsActiveRightRedzone H 0"
  shows "memset sh a (kHeapFreedMarker H) 8 = freed_range H sh a (a + 8)"
proof (rule ext)
  fix j
  show "memset sh a (kHeapFreedMarker H) 8 j = freed_range H sh a (a + 8) j"
  proof (cases "a \<le> j \<and> j < a + 8")
    case True
    then have "sh j = 0" using load_bytes_zero [OF assms(1)] by blast
    then show ?thesis using True assms(2,3) by (simp add: memset_apply freed_range_def)
  next
    case False
    then show ?thesis by (auto simp: memset_apply freed_range_def)
  qed
qed

lemma MarkAsFreedImplAligned64_correct:
  assumes "\<not> IsActiveLeftRedzone H 0" "\<not> IsActiveRightRedzone H 0"
  shows "MarkAsFreedImplAligned64 H sh a (a + 8 * n) = Some (freed_range H sh a (a + 8 * n))"
proof (induction n arbitrary: sh a)
  case 0
  show ?case by (subst MarkAsFreedImplAligned64.simps) (simp add: freed_range_empty)
next
  case (Suc n)
  have e: "a + 8 * Suc n = (a + 8) + 8 * n" by simp
  have ne: "a \<noteq> (a + 8) + 8 * n" by simp
  have comp: "freed_range H (freed_range H sh a (a + 8)) (a + 8) (a + 8 + 8 * n) =
              freed_range H sh a (a + 8 + 8 * n)"
    by (rule freed_range_compose) simp_all
  show ?case
  proof (cases "load_bytes sh a 8 = replicate 8 0")
    case True
    have "MarkAsFreedImplAligned64 H sh a (a + 8 + 8 * n) =
          MarkAsFreedImplAligned64 H (memset sh a (kHeapFreedMarker H) 8) (a + 8) (a + 8 + 8 * n)"
      by (subst MarkAsFreedImplAligned64.simps) (simp only: ne True if_True if_False simp_thms)
    also have "\<dots> = Some (freed_range H (memset sh a (kHeapFreedMarker H) 8) (a + 8)
                            (a + 8 + 8 * n))"
      by (rule Suc.IH)
    also have "\<dots> = Some (freed_range H sh a (a + 8 + 8 * n))"
      by (simp only: memset_freed_range [OF True assms] comp)
    finally show ?thesis by (simp only: e)
  next
    case False
    have "MarkAsFreedImplAligned64 H sh a (a + 8 + 8 * n) =
          Option.bind (MarkAsFreedImpl8 H sh a (a + 8))
             (\<lambda>sh. MarkAsFreedImplAligned64 H sh (a + 8) (a + 8 + 8 * n))"
      by (subst MarkAsFreedImplAligned64.simps) (simp only: ne False if_True if_False simp_thms)
    also have "\<dots> = MarkAsFreedImplAligned64 H (freed_range H sh a (a + 8)) (a + 8)
                        (a + 8 + 8 * n)"
      by (simp only: MarkAsFreedImpl8_correct Option.bind.simps)
    also have "\<dots> = Some (freed_range H (freed_range H sh a (a + 8)) (a + 8) (a + 8 + 8 * n))"
      by (rule Suc.IH)
    finally show ?thesis by (simp only: e comp)
  qed
qed

lemma align_split:
  assumes "2 * 8 \<le> e - c"
  shows "\<exists>d1 n d2. AlignUp c 8 = c + d1 \<and> AlignDown e 8 = AlignUp c 8 + 8 * n \<and>
                   e = AlignDown e 8 + d2"
proof -
  define u r v t where "u = (c + 7) div 8" and "r = (c + 7) mod 8"
    and "v = e div 8" and "t = e mod 8"
  have c: "c + 7 = 8 * u + r" and r: "r < 8" unfolding u_def r_def by simp_all
  have e: "e = 8 * v + t" and t: "t < 8" unfolding v_def t_def by simp_all
  have up: "AlignUp c 8 = 8 * u" unfolding AlignUp_def u_def by simp
  have down: "AlignDown e 8 = 8 * v" unfolding AlignDown_def v_def by simp
  have "c \<le> 8 * u" using c r by arith
  moreover have "u \<le> v" using c r e t assms by arith
  ultimately have "8 * u = c + (8 * u - c)" "8 * v = 8 * u + 8 * (v - u)" "e = 8 * v + t"
    using e by simp_all
  then show ?thesis unfolding up down by blast
qed

lemma MarkAsFreedImpl64_correct:
  assumes "\<not> IsActiveLeftRedzone H 0" "\<not> IsActiveRightRedzone H 0" and small: "len < 2 ^ 32"
  shows "MarkAsFreedImpl64 H sh c (c + len) = Some (freed_range H sh c (c + len))"
proof (cases "2 * 8 \<le> len")
  case False
  have d: "nat ((int (c + len) - int c) mod 2 ^ 32) = len" using small by simp
  show ?thesis
    unfolding MarkAsFreedImpl64_def d by (simp only: False if_False MarkAsFreedImpl8_correct)
next
  case T: True
  have d: "nat ((int (c + len) - int c) mod 2 ^ 32) = len" using small by simp
  have True: "2 * 8 \<le> c + len - c" using T by simp
  from align_split [OF True] obtain d1 n d2 where
    up: "AlignUp c 8 = c + d1" and down: "AlignDown (c + len) 8 = c + d1 + 8 * n"
    and e: "c + len = c + d1 + 8 * n + d2"
    by metis
  have c1: "freed_range H (freed_range H sh c (c + d1)) (c + d1) (c + d1 + 8 * n) =
            freed_range H sh c (c + d1 + 8 * n)"
    by (rule freed_range_compose) simp_all
  have c2: "freed_range H (freed_range H sh c (c + d1 + 8 * n)) (c + d1 + 8 * n)
              (c + d1 + 8 * n + d2) = freed_range H sh c (c + d1 + 8 * n + d2)"
    by (rule freed_range_compose) simp_all
  have "MarkAsFreedImpl64 H sh c (c + len) =
        Option.bind (MarkAsFreedImpl8 H sh c (c + d1)) (\<lambda>sh.
        Option.bind (MarkAsFreedImplAligned64 H sh (c + d1) (c + d1 + 8 * n)) (\<lambda>sh.
        MarkAsFreedImpl8 H sh (c + d1 + 8 * n) (c + d1 + 8 * n + d2)))"
    unfolding MarkAsFreedImpl64_def Let_def d
    by (simp only: T if_True up down) (simp only: e)
  also have "\<dots> = Some (freed_range H sh c (c + d1 + 8 * n + d2))"
    by (simp only: MarkAsFreedImpl8_correct MarkAsFreedImplAligned64_correct [OF assms(1,2)]
        Option.bind.simps c1 c2)
  finally show ?thesis by (simp only: e)
qed


lemma unat_div8: "unat ((a :: 32 word) div 8) = unat a div 8"
  by (simp add: unat_div)

lemma unat_round_up8:
  assumes "unat (sz :: 32 word) + 7 < 2 ^ 32"
  shows "unat ((sz + 8 - 1) div 8) = (unat sz + 7) div 8"
proof -
  have e: "sz + 8 - 1 = sz + 7" by simp
  have "unat (sz + 7) = unat sz + unat (7 :: 32 word)"
    using assms by (subst unat_add_lem [symmetric]) simp
  then have "unat (sz + 7) = unat sz + 7" by simp
  then show ?thesis unfolding e unat_div8 by (rule arg_cong)
qed

lemma covering_granules:
  fixes a s j :: nat
  assumes "a mod 8 = 0"
  shows "(a div 8 \<le> j \<and> j < a div 8 + (s + 7) div 8) \<longleftrightarrow> (a < 8 * j + 8 \<and> 8 * j < a + s)"
proof -
  define i L r where "i = a div 8" and "L = (s + 7) div 8" and "r = (s + 7) mod 8"
  have a: "a = 8 * i"
    unfolding i_def using assms by (metis mod_0_imp_dvd dvd_mult_div_cancel)
  have s: "s + 7 = 8 * L + r" and r: "r < 8" unfolding L_def r_def by simp_all
  have "(i \<le> j \<and> j < i + L) \<longleftrightarrow> (8 * i < 8 * j + 8 \<and> 8 * j < 8 * i + s)"
    using s r by arith
  then show ?thesis unfolding i_def [symmetric] L_def [symmetric] using a by simp
qed

text \<open>
  C4. \<open>MarkAsFreed(addr, size)\<close> returns, and sets every shadow byte whose granule
  meets \<open>[addr, addr + size)\<close> to \<open>kHeapFreedMarker\<close>, except that a byte holding an active
  left-redzone or active right-redzone marker keeps its value; every other shadow byte
  is unchanged. The zero (addressable) marker is assumed not to be a redzone marker.
\<close>

theorem MarkAsFreed_effect:
  assumes dcheck: "MarkAsFreed_DCHECK addr sz"
      and range: "unat addr + unat sz \<le> 2 ^ 31"
      and green: "\<not> IsActiveLeftRedzone H kHeapAddressableMarker"
                 "\<not> IsActiveRightRedzone H kHeapAddressableMarker"
  shows "\<exists>sh'. MarkAsFreed H sh addr sz = Some sh' \<and>
           (\<forall>j. sh' j =
              (if (unat addr < 8 * j + 8 \<and> 8 * j < unat addr + unat sz) \<and>
                  \<not> IsActiveLeftRedzone H (sh j) \<and> \<not> IsActiveRightRedzone H (sh j)
               then kHeapFreedMarker H else sh j))"
proof -
  define a s i L where "a = unat addr" and "s = unat sz" and "i = a div 8"
    and "L = (s + 7) div 8"
  have al: "a mod 8 = 0"
    using dcheck unfolding MarkAsFreed_DCHECK_def a_def by (simp only: and7_eq0_iff)
  have "unat sz + 7 < 2 ^ 32" using range by simp
  then have len: "unat ((sz + 8 - 1) div 8) = L"
    unfolding L_def s_def by (rule unat_round_up8)
  have small: "L < 2 ^ 32"
    using unat32_less [of "(sz + 8 - 1) div 8"] unfolding len by simp
  have idx: "unat (addr div 8) = i" unfolding i_def a_def by (rule unat_div8)
  have g: "\<not> IsActiveLeftRedzone H 0" "\<not> IsActiveRightRedzone H 0"
    using green unfolding kHeapAddressableMarker_def by simp_all
  have run: "MarkAsFreed H sh addr sz = Some (freed_range H sh i (i + L))"
    unfolding MarkAsFreed_def Let_def
    by (simp only: len idx MarkAsFreedImpl64_correct [OF g small])
  have cov: "\<And>j. (i \<le> j \<and> j < i + L) \<longleftrightarrow> (a < 8 * j + 8 \<and> 8 * j < a + s)"
    unfolding i_def L_def using al by (rule covering_granules)
  have "\<forall>j. freed_range H sh i (i + L) j =
              (if (a < 8 * j + 8 \<and> 8 * j < a + s) \<and>
                  \<not> IsActiveLeftRedzone H (sh j) \<and> \<not> IsActiveRightRedzone H (sh j)
               then kHeapFreedMarker H else sh j)"
    unfolding freed_range_def by (simp only: cov [symmetric] conj_assoc simp_thms)
  then show ?thesis using run unfolding a_def s_def by blast
qed

lemma MarkAsFreed_DCHECK_example: "MarkAsFreed_DCHECK 0x10010 10"
  by (simp add: MarkAsFreed_DCHECK_def kAddressLowerBound_def kShadowSize_def)

theorem MarkAsFreed_effect_witness:
  "MarkAsFreed_DCHECK 0x10010 10 \<and>
   (\<exists>sh'. MarkAsFreed syzygy_markers ((\<lambda>_. 0)(0x2001 := 0xFA, 0x2003 := 2, 0x2004 := 0xFB))
            0x10010 10 = Some sh' \<and>
          sh' 0x2001 = 0xFA \<and> sh' 0x2002 = 0xFD \<and> sh' 0x2003 = 0xFD \<and> sh' 0x2004 = 0xFB)"
proof -
  have r: "unat (0x10010 :: uintptr_t) + unat (10 :: size_t) \<le> 2 ^ 31" by simp
  have g: "\<not> IsActiveLeftRedzone syzygy_markers kHeapAddressableMarker"
          "\<not> IsActiveRightRedzone syzygy_markers kHeapAddressableMarker"
    by (simp_all add: syzygy_markers_def kHeapAddressableMarker_def)
  from MarkAsFreed_effect [OF MarkAsFreed_DCHECK_example r g,
      of "(\<lambda>_. 0)(0x2001 := 0xFA, 0x2003 := 2, 0x2004 := 0xFB)"]
  obtain sh' where
    run: "MarkAsFreed syzygy_markers ((\<lambda>_. 0)(0x2001 := 0xFA, 0x2003 := 2, 0x2004 := 0xFB))
            0x10010 10 = Some sh'"
    and at: "\<And>j. sh' j =
       (if (unat (0x10010 :: uintptr_t) < 8 * j + 8 \<and> 8 * j < unat (0x10010 :: uintptr_t) + unat (10 :: size_t)) \<and>
           \<not> IsActiveLeftRedzone syzygy_markers (((\<lambda>_. 0)(0x2001 := 0xFA, 0x2003 := 2, 0x2004 := 0xFB)) j) \<and>
           \<not> IsActiveRightRedzone syzygy_markers (((\<lambda>_. 0)(0x2001 := 0xFA, 0x2003 := 2, 0x2004 := 0xFB)) j)
        then kHeapFreedMarker syzygy_markers
        else ((\<lambda>_. 0)(0x2001 := 0xFA, 0x2003 := 2, 0x2004 := 0xFB)) j)"
    by blast
  have "sh' 0x2001 = 0xFA" "sh' 0x2002 = 0xFD" "sh' 0x2003 = 0xFD" "sh' 0x2004 = 0xFB"
    by (simp_all add: at syzygy_markers_def)
  then show ?thesis using run MarkAsFreed_DCHECK_example by simp
qed

section \<open>The runtime: stack reserve, sentinel exception, bad-access classification\<close>


lemma compile_asserts:
  "drop_bit 11 kAsanFacility = 0 \<and> drop_bit 16 kAsanStatus = 0 \<and>
   kAsanException AND (push_bit 27 3) = 0"
  by (simp add: kAsanException_def kAsanFacility_def kAsanStatus_def)

text \<open>
  C9. \<open>MaxSafeAllocaSize\<close> returns 0 when the stack query fails; otherwise, with \<open>d\<close> the
  distance from the current stack position to the stack's allocation base, it returns
  \<open>d - 5 * 1024\<close> when \<open>d\<close> exceeds the reserve and 0 when it does not: whenever the
  stack has 5 KiB left, the result plus the 5 KiB reserve is exactly \<open>d\<close>.
\<close>

theorem MaxSafeAllocaSize_reserve:
  "MaxSafeAllocaSize stack None = 0 \<and>
   MaxSafeAllocaSize stack (Some base) =
     (if unat (stack - base) \<le> 5 * 1024 then 0 else stack - base - 5 * 1024) \<and>
   unat (MaxSafeAllocaSize stack (Some base)) = unat (stack - base) - 5 * 1024 \<and>
   (5 * 1024 \<le> unat (stack - base) \<longrightarrow>
      unat (MaxSafeAllocaSize stack (Some base)) + 5 * 1024 = unat (stack - base))"
proof -
  define d where "d = stack - base"
  have r: "unat kReservedStack = 5120" by (simp add: kReservedStack_def)
  have m: "MaxSafeAllocaSize stack (Some base) = d - min d kReservedStack"
    by (simp add: MaxSafeAllocaSize_def d_def Let_def)
  have le: "min d kReservedStack \<le> d" by simp
  have u: "unat (d - min d kReservedStack) = unat d - unat (min d kReservedStack)"
    using le by (rule unat_sub)
  have um: "unat (min d kReservedStack) = min (unat d) 5120"
    by (simp add: min_def word_le_nat_alt r)
  have a: "unat (MaxSafeAllocaSize stack (Some base)) = unat d - 5120"
    unfolding m u um by arith
  have b: "MaxSafeAllocaSize stack (Some base) = (if unat d \<le> 5120 then 0 else d - 5120)"
  proof (cases "unat d \<le> 5120")
    case True
    then have "d \<le> kReservedStack" by (simp add: word_le_nat_alt r)
    then show ?thesis using True by (simp add: m min_def)
  next
    case False
    then have "\<not> d \<le> kReservedStack" by (simp add: word_le_nat_alt r)
    then show ?thesis using False by (simp add: m min_def kReservedStack_def)
  qed
  have z: "MaxSafeAllocaSize stack None = 0" by (simp add: MaxSafeAllocaSize_def)
  have a': "unat (MaxSafeAllocaSize stack (Some base)) = unat d - 5 * 1024"
    using a by simp
  have b': "MaxSafeAllocaSize stack (Some base) =
     (if unat d \<le> 5 * 1024 then 0 else d - 5 * 1024)"
    using b by simp
  have c': "5 * 1024 \<le> unat d \<longrightarrow>
      unat (MaxSafeAllocaSize stack (Some base)) + 5 * 1024 = unat d"
    using a by simp
  show ?thesis using z a' b' c' unfolding d_def by blast
qed

theorem MaxSafeAllocaSize_reserve_witness:
  "MaxSafeAllocaSize 0x12F000 (Some 0x30000) = 0xFDC00 \<and>
   MaxSafeAllocaSize 0x31000 (Some 0x30000) = 0"
  using MaxSafeAllocaSize_reserve [of "0x12F000" "0x30000"]
        MaxSafeAllocaSize_reserve [of "0x31000" "0x30000"]
  by simp

lemma copy_orig_args_length:
  "length (copy_orig_args mem orig args i nargs) = length args"
  by (induction mem orig args i nargs rule: copy_orig_args.induct)
     (subst copy_orig_args.simps, simp)





lemma Poison_below:
  assumes "j < unat addr div 8"
  shows "Poison sh addr sz m j = sh j"
proof -
  define i where "i = unat addr div 8"
  have "j < i" using assms unfolding i_def .
  then show ?thesis
    unfolding Poison_alt i_def [symmetric] by (simp add: memset_apply)
qed

lemma Poison_zero: "Poison sh 0 sz m j = (if j < unat sz div 8 then m else sh j)"
  unfolding Poison_alt by (simp add: memset_apply)

lemma odd_div_2_31:
  assumes "(n::nat) < 2 ^ 32"
  shows "odd (n div 2 ^ 31) \<longleftrightarrow> 2 ^ 31 \<le> n"
proof -
  define q r where "q = n div 2 ^ 31" and "r = n mod 2 ^ 31"
  have n: "n = 2 ^ 31 * q + r" and r: "r < 2 ^ 31" unfolding q_def r_def by simp_all
  have "q < 2" using assms n r by simp
  then have "q = 0 \<or> q = 1" by arith
  then have "odd q \<longleftrightarrow> 2 ^ 31 \<le> n" using n r by auto
  then show ?thesis unfolding q_def .
qed

lemma bit31_iff:
  "((location :: uintptr_t) AND push_bit 31 1 \<noteq> 0) \<longleftrightarrow> 2 ^ 31 \<le> unat location"
proof -
  have "location AND push_bit 31 1 \<noteq> 0 \<longleftrightarrow> bit location 31"
    by (simp only: push_bit_eq_mult mult_1_left mult_1 and_exp_eq_0_iff_not_bit simp_thms)
  also have "\<dots> \<longleftrightarrow> bit (unat location) 31" by (simp add: bit_unsigned_iff)
  also have "\<dots> \<longleftrightarrow> odd (unat location div 2 ^ 31)" by (simp add: bit_iff_odd)
  also have "\<dots> \<longleftrightarrow> 2 ^ 31 \<le> unat location"
    using unat32_less [of location] by (intro odd_div_2_31) simp
  finally show ?thesis .
qed

text \<open>
  C8. \<open>GetBadAccessInformation\<close> sets the error type to \<open>WILD_ACCESS\<close> when the faulting
  address has bit 31 set (it is at or above 2 GiB) or its shadow marker is
  \<open>kAsanMemoryMarker\<close>, and to \<open>INVALID_ADDRESS\<close> when the address is below 2 GiB and its
  shadow marker is \<open>kInvalidAddressMarker\<close> (a marker other than \<open>kAsanMemoryMarker\<close>).
  \<open>kInvalidAddressMarker\<close> is the marker that \<open>Shadow::SetUp\<close> leaves on every address of
  the first 64 KiB, the page-bits array lying above them.
\<close>

theorem bad_access_classification:
  "((location AND push_bit 31 1 \<noteq> 0) \<longleftrightarrow> 2 ^ 31 \<le> unat location) \<and>
   (2 ^ 31 \<le> unat location \<or> GetShadowMarkerForAddress sh location = kAsanMemoryMarker H \<longrightarrow>
      GetBadAccessInformation H sh other location = WILD_ACCESS) \<and>
   (unat location < 2 ^ 31 \<and> kInvalidAddressMarker H \<noteq> kAsanMemoryMarker H \<and>
    GetShadowMarkerForAddress sh location = kInvalidAddressMarker H \<longrightarrow>
      GetBadAccessInformation H sh other location = INVALID_ADDRESS) \<and>
   (kAddressLowerBound \<le> unat page_bits_addr \<and> unat location < kAddressLowerBound \<longrightarrow>
      GetShadowMarkerForAddress (SetUp H sh0 shadow_addr page_bits_addr kPageBitsSize) location =
        kInvalidAddressMarker H)"
proof -
  note b = bit31_iff [of location]
  have w: "GetBadAccessInformation H sh other location = WILD_ACCESS"
    if "2 ^ 31 \<le> unat location \<or> GetShadowMarkerForAddress sh location = kAsanMemoryMarker H"
    using that unfolding GetBadAccessInformation_def b by auto
  have i: "GetBadAccessInformation H sh other location = INVALID_ADDRESS"
    if "unat location < 2 ^ 31" "kInvalidAddressMarker H \<noteq> kAsanMemoryMarker H"
       "GetShadowMarkerForAddress sh location = kInvalidAddressMarker H"
    using that unfolding GetBadAccessInformation_def b by auto
  have s: "GetShadowMarkerForAddress (SetUp H sh0 shadow_addr page_bits_addr kPageBitsSize) location =
        kInvalidAddressMarker H"
    if p: "kAddressLowerBound \<le> unat page_bits_addr" and l: "unat location < kAddressLowerBound"
  proof -
    define q where "q = unat location div 8"
    have q: "q < 8192" using l unfolding q_def kAddressLowerBound_def by simp
    have "8192 \<le> unat page_bits_addr div 8"
      using p unfolding kAddressLowerBound_def by simp
    then have below: "q < unat page_bits_addr div 8" using q by simp
    have k: "unat (of_nat kAddressLowerBound :: size_t) div 8 = 8192"
      by (simp add: kAddressLowerBound_def)
    show ?thesis
      unfolding GetShadowMarkerForAddress_def SetUp_def Let_def unat_drop_bit3 q_def [symmetric]
      by (simp only: Poison_below [OF below] Poison_zero k q if_True)
  qed
  show ?thesis using b w i s by blast
qed

theorem bad_access_classification_witness:
  "GetBadAccessInformation syzygy_markers (\<lambda>_. 0) UNKNOWN_BAD_ACCESS 0x80001000 = WILD_ACCESS \<and>
   GetBadAccessInformation syzygy_markers ((\<lambda>_. 0)(0x2000 := 0xF1)) UNKNOWN_BAD_ACCESS 0x10000
     = WILD_ACCESS \<and>
   GetBadAccessInformation syzygy_markers
     (SetUp syzygy_markers (\<lambda>_. 0) 0x1000000 0x11000000 0x10000) UNKNOWN_BAD_ACCESS 0x20
     = INVALID_ADDRESS"
proof -
  let ?sh = "SetUp syzygy_markers (\<lambda>_. 0) 0x1000000 0x11000000 0x10000"
  have m: "GetShadowMarkerForAddress ?sh 0x20 = kInvalidAddressMarker syzygy_markers"
    using bad_access_classification [of "0x20" "\<lambda>_. 0" syzygy_markers UNKNOWN_BAD_ACCESS
        "0x11000000" "\<lambda>_. 0" "0x1000000" "0x10000"]
    by (simp add: kAddressLowerBound_def)
  have d: "kInvalidAddressMarker syzygy_markers \<noteq> kAsanMemoryMarker syzygy_markers"
    by (simp add: syzygy_markers_def)
  have "GetBadAccessInformation syzygy_markers ?sh UNKNOWN_BAD_ACCESS 0x20 = INVALID_ADDRESS"
    using bad_access_classification [of "0x20" ?sh syzygy_markers UNKNOWN_BAD_ACCESS] m d
    by simp
  moreover have
    "GetBadAccessInformation syzygy_markers (\<lambda>_. 0) UNKNOWN_BAD_ACCESS 0x80001000 = WILD_ACCESS"
    using bad_access_classification [of "0x80001000" "\<lambda>_. 0" syzygy_markers UNKNOWN_BAD_ACCESS]
    by simp
  moreover have
    "GetBadAccessInformation syzygy_markers ((\<lambda>_. 0)(0x2000 := 0xF1)) UNKNOWN_BAD_ACCESS 0x10000
       = WILD_ACCESS"
    using bad_access_classification [of "0x10000" "(\<lambda>_. 0)(0x2000 := 0xF1)" syzygy_markers
        UNKNOWN_BAD_ACCESS]
    by (simp add: GetShadowMarkerForAddress_def syzygy_markers_def drop_bit_eq_div)
  ultimately show ?thesis by simp
qed

section \<open>Quarantine of size 0\<close>

lemma Push_contains:
  assumes "shards q \<noteq> []"
  shows "e \<in> set (concat (shards (Push q e)))"
proof -
  define i where "i = entry_hash e mod length (shards q)"
  have i: "i < length (shards q)" using assms unfolding i_def by simp
  have "shards (Push q e) = (shards q)[i := shards q ! i @ [e]]"
    unfolding Push_def Let_def i_def by simp
  moreover have "shards q ! i @ [e] \<in> set ((shards q)[i := shards q ! i @ [e]])"
    using i by (simp add: set_update_memI)
  moreover have "e \<in> set (shards q ! i @ [e])" by simp
  ultimately show ?thesis unfolding set_concat by (metis UN_I)
qed

text \<open>
  C6. With \<open>quarantine_size = 0\<close> the quarantine is disabled: trimming after a \<open>Push\<close>
  evicts every stored entry, the pushed one included, and leaves the quarantine empty.
\<close>

theorem quarantine_size_zero_flushes:
  assumes "shards q \<noteq> []"
  shows "e \<in> set (fst (TrimQuarantine 0 pick (Push q e))) \<and>
         fst (TrimQuarantine 0 pick (Push q e)) = concat (shards (Push q e)) \<and>
         concat (shards (snd (TrimQuarantine 0 pick (Push q e)))) = [] \<and>
         total_size (snd (TrimQuarantine 0 pick (Push q e))) = 0"
  using Push_contains [OF assms, of e]
  by (simp add: TrimQuarantine_def Flush_def)

theorem quarantine_size_zero_flushes_witness:
  "fst (TrimQuarantine 0 (\<lambda>_. 0)
          (Push \<lparr>shards = [[], [\<lparr>entry_block = 0x20000, entry_size = 48, entry_hash = 5\<rparr>]],
                 total_size = 48\<rparr>
                \<lparr>entry_block = 0x30000, entry_size = 64, entry_hash = 2\<rparr>))
     = [\<lparr>entry_block = 0x30000, entry_size = 64, entry_hash = 2\<rparr>,
        \<lparr>entry_block = 0x20000, entry_size = 48, entry_hash = 5\<rparr>] \<and>
   total_size (snd (TrimQuarantine 0 (\<lambda>_. 0)
          (Push \<lparr>shards = [[], [\<lparr>entry_block = 0x20000, entry_size = 48, entry_hash = 5\<rparr>]],
                 total_size = 48\<rparr>
                \<lparr>entry_block = 0x30000, entry_size = 64, entry_hash = 2\<rparr>))) = 0"
proof -
  define e1 e0 :: quarantine_entry
    where "e1 = \<lparr>entry_block = 0x20000, entry_size = 48, entry_hash = 5\<rparr>"
      and "e0 = \<lparr>entry_block = 0x30000, entry_size = 64, entry_hash = 2\<rparr>"
  define q0 :: quarantine where "q0 = \<lparr>shards = [[], [e1]], total_size = 48\<rparr>"
  have ne: "shards q0 \<noteq> []" by (simp add: q0_def)
  have i: "entry_hash e0 mod length (shards q0) = 0" by (simp add: e0_def q0_def numeral_2_eq_2)
  have p: "shards (Push q0 e0) = [[e0], [e1]]"
    unfolding Push_def Let_def i by (simp add: q0_def)
  have "fst (TrimQuarantine 0 (\<lambda>_. 0) (Push q0 e0)) = [e0, e1] \<and>
        total_size (snd (TrimQuarantine 0 (\<lambda>_. 0) (Push q0 e0))) = 0"
    using quarantine_size_zero_flushes [OF ne, of e0 "\<lambda>_. 0"] by (simp add: p)
  then show ?thesis unfolding q0_def e0_def e1_def .
qed

section \<open>Malformed shadow\<close>

lemma ScanLeft_reaches_loop:
  assumes "ScanLeft_reaches H sh s t"
  shows "ScanLeft_loop H sh (fst s) (snd s) = ScanLeft_loop H sh (fst t) (snd t)"
  using assms
proof (induction rule: ScanLeft_reaches.induct)
  case (ScanLeft_start s)
  show ?case by simp
next
  case (ScanLeft_next s left nesting_depth left' nesting_depth')
  have "ScanLeft_loop H sh left nesting_depth = ScanLeft_loop H sh left' nesting_depth'"
    by (subst ScanLeft_loop.simps) (simp add: ScanLeft_next.hyps(2))
  then show ?case using ScanLeft_next.IH by simp
qed

lemma ScanRight_reaches_loop:
  assumes "ScanRight_reaches H sh s t"
  shows "ScanRight_loop H sh (fst s) (snd s) = ScanRight_loop H sh (fst t) (snd t)"
  using assms
proof (induction rule: ScanRight_reaches.induct)
  case (ScanRight_start s)
  show ?case by simp
next
  case (ScanRight_next s pos nesting_depth pos' nesting_depth')
  have "ScanRight_loop H sh pos nesting_depth = ScanRight_loop H sh pos' nesting_depth'"
    by (subst ScanRight_loop.simps) (simp add: ScanRight_next.hyps(2,3))
  then show ?case using ScanRight_next.IH by simp
qed

lemma ScanLeft_malformed:
  assumes "\<forall>m. \<not> (IsBlockStart H m \<and> IsBlockEnd H m)" "0 < d"
    "non_nested_start H (sh l) \<or> non_nested_end H (sh l)"
  shows "ScanLeft_loop H sh l d = None"
proof -
  have "ScanLeft_body H sh l d = Inr None"
    using assms unfolding ScanLeft_body_def non_nested_start_def non_nested_end_def by auto
  then show ?thesis by (subst ScanLeft_loop.simps) simp
qed

lemma ScanRight_malformed:
  assumes "\<forall>m. \<not> (IsBlockStart H m \<and> IsBlockEnd H m)" "0 < d" "pos < kShadowSize"
    "ScanRightForPotentialHeaderBytes H sh pos kShadowSize = q" "q \<noteq> kShadowSize"
    "non_nested_start H (sh q) \<or> non_nested_end H (sh q)"
  shows "ScanRight_loop H sh pos d = None"
proof -
  have "ScanRight_body H sh pos d = Inr None"
    using assms unfolding ScanRight_body_def Let_def non_nested_start_def non_nested_end_def
    by auto
  then show ?thesis using assms(3) by (subst ScanRight_loop.simps) simp
qed

lemma ScanLeft_from_initial:
  "ScanLeftForBracketingBlockStart H sh init cursor =
   ScanLeft_loop H sh (fst (ScanLeft_initial H sh init cursor))
     (snd (ScanLeft_initial H sh init cursor))"
  by (simp add: ScanLeftForBracketingBlockStart_def ScanLeft_initial_def Let_def)

lemma ScanRight_from_initial:
  "ScanRightForBracketingBlockEnd H sh init cursor =
   ScanRight_loop H sh (fst (ScanRight_initial H sh init cursor))
     (snd (ScanRight_initial H sh init cursor))"
  by (simp add: ScanRightForBracketingBlockEnd_def ScanRight_initial_def Let_def)

lemma BlockInfoFromShadowImpl_left_None:
  "ScanLeftForBracketingBlockStart H sh init (unat (addr div 8)) = None \<Longrightarrow>
   BlockInfoFromShadowImpl H sh init addr = None"
  by (simp add: BlockInfoFromShadowImpl_def Let_def)

lemma BlockInfoFromShadowImpl_right_None:
  "ScanRightForBracketingBlockEnd H sh init (unat (addr div 8)) = None \<Longrightarrow>
   BlockInfoFromShadowImpl H sh init addr = None"
  by (simp add: BlockInfoFromShadowImpl_def Let_def split: option.splits)

text \<open>
  C5. When the left scan of \<open>BlockInfoFromShadowImpl\<close> begins an iteration at a shadow
  byte that is a non-nested block start or a non-nested block end while its nesting
  depth is greater than zero, the scan returns false and so does
  \<open>BlockInfoFromShadowImpl\<close>: no block info is produced. The same holds for the right
  scan and the shadow byte that an iteration of it inspects. Block-start and block-end
  markers are assumed to be different markers.
\<close>

theorem malformed_shadow_fails:
  assumes distinct: "\<forall>m. \<not> (IsBlockStart H m \<and> IsBlockEnd H m)"
      and depth: "0 < nesting_depth"
      and marker: "non_nested_start H m \<or> non_nested_end H m"
  shows "(ScanLeft_reaches H sh (ScanLeft_initial H sh init (unat (addr div 8)))
            (left, nesting_depth) \<and> sh left = m \<longrightarrow>
          ScanLeftForBracketingBlockStart H sh init (unat (addr div 8)) = None \<and>
          BlockInfoFromShadowImpl H sh init addr = None) \<and>
         (ScanRight_reaches H sh (ScanRight_initial H sh init (unat (addr div 8)))
            (pos, nesting_depth) \<and> pos < kShadowSize \<and>
          ScanRightForPotentialHeaderBytes H sh pos kShadowSize = q \<and> q \<noteq> kShadowSize \<and>
          sh q = m \<longrightarrow>
          ScanRightForBracketingBlockEnd H sh init (unat (addr div 8)) = None \<and>
          BlockInfoFromShadowImpl H sh init addr = None)"
proof (intro conjI impI)
  assume a: "ScanLeft_reaches H sh (ScanLeft_initial H sh init (unat (addr div 8)))
            (left, nesting_depth) \<and> sh left = m"
  have "ScanLeftForBracketingBlockStart H sh init (unat (addr div 8)) =
        ScanLeft_loop H sh left nesting_depth"
    using ScanLeft_reaches_loop [OF a [THEN conjunct1]] by (simp add: ScanLeft_from_initial)
  also have "\<dots> = None"
    using ScanLeft_malformed [OF distinct depth] marker a by blast
  finally show l: "ScanLeftForBracketingBlockStart H sh init (unat (addr div 8)) = None" .
  then show "BlockInfoFromShadowImpl H sh init addr = None"
    by (rule BlockInfoFromShadowImpl_left_None)
next
  assume a: "ScanRight_reaches H sh (ScanRight_initial H sh init (unat (addr div 8)))
            (pos, nesting_depth) \<and> pos < kShadowSize \<and>
          ScanRightForPotentialHeaderBytes H sh pos kShadowSize = q \<and> q \<noteq> kShadowSize \<and>
          sh q = m"
  have "ScanRightForBracketingBlockEnd H sh init (unat (addr div 8)) =
        ScanRight_loop H sh pos nesting_depth"
    using ScanRight_reaches_loop [OF a [THEN conjunct1]] by (simp add: ScanRight_from_initial)
  also have "\<dots> = None"
    using ScanRight_malformed [OF distinct depth, of pos sh q] marker a by blast
  finally show r: "ScanRightForBracketingBlockEnd H sh init (unat (addr div 8)) = None" .
  then show "BlockInfoFromShadowImpl H sh init addr = None"
    by (rule BlockInfoFromShadowImpl_right_None)
qed


lemma syzygy_start_end_distinct:
  "\<forall>m. \<not> (IsBlockStart syzygy_markers m \<and> IsBlockEnd syzygy_markers m)"
proof (intro allI notI)
  fix m :: uint8
  assume "IsBlockStart syzygy_markers m \<and> IsBlockEnd syzygy_markers m"
  then have s: "m AND 0xD0 = 0xC0" and e: "m AND 0xDE = 0xD4"
    by (simp_all add: syzygy_markers_def)
  have "(m AND 0xD0) AND 0x10 = m AND 0x10" by (simp add: and.assoc)
  then have "m AND 0x10 = 0" unfolding s by simp
  moreover have "(m AND 0xDE) AND 0x10 = m AND 0x10" by (simp add: and.assoc)
  then have "m AND 0x10 = 0x10" unfolding e by simp
  ultimately show False by simp
qed

theorem malformed_shadow_fails_witness:
  "ScanLeft_reaches syzygy_markers ((\<lambda>_. 0)(0x2001 := 0xE0, 0x2002 := 0xF5))
     (ScanLeft_initial syzygy_markers ((\<lambda>_. 0)(0x2001 := 0xE0, 0x2002 := 0xF5)) 0
        (unat ((0x10018 :: uintptr_t) div 8))) (0x2001, 1) \<and>
   non_nested_start syzygy_markers
     (((\<lambda>_. 0)(0x2001 := 0xE0, 0x2002 := 0xF5)) (0x2001 :: nat)) \<and>
   BlockInfoFromShadowImpl syzygy_markers ((\<lambda>_. 0)(0x2001 := 0xE0, 0x2002 := 0xF5)) 0 0x10018
     = None"
proof -
  define sh :: shadow where "sh = (\<lambda>_. 0)(0x2001 := 0xE0, 0x2002 := 0xF5)"
  have c: "unat ((0x10018 :: uintptr_t) div 8) = 0x2003" by (simp add: unat_div)
  have i: "ScanLeft_initial syzygy_markers sh 0 0x2003 = (0x2003, 0)"
    by (simp add: ScanLeft_initial_def sh_def syzygy_markers_def)
  have b1: "ScanLeft_body syzygy_markers sh 0x2003 0 = Inl (0x2002, 0)"
    by (simp add: ScanLeft_body_def sh_def syzygy_markers_def kLowerBound_def
        kAddressLowerBound_def kShadowRatio_def)
  have b2: "ScanLeft_body syzygy_markers sh 0x2002 0 = Inl (0x2001, 1)"
    by (simp add: ScanLeft_body_def sh_def syzygy_markers_def kLowerBound_def
        kAddressLowerBound_def kShadowRatio_def)
  have r: "ScanLeft_reaches syzygy_markers sh (ScanLeft_initial syzygy_markers sh 0 0x2003)
             (0x2001, 1)"
    unfolding i
    by (rule ScanLeft_next [OF ScanLeft_next [OF ScanLeft_start b1] b2])
  have n: "non_nested_start syzygy_markers (sh 0x2001)"
    by (simp add: non_nested_start_def sh_def syzygy_markers_def)
  then have n': "non_nested_start syzygy_markers (sh 0x2001) \<or>
                 non_nested_end syzygy_markers (sh 0x2001)" by simp
  have "BlockInfoFromShadowImpl syzygy_markers sh 0 0x10018 = None"
    using malformed_shadow_fails [OF syzygy_start_end_distinct _ n',
        of 1 sh 0 "0x10018" "0x2001"] r
    unfolding c by simp
  then show ?thesis using r n unfolding c sh_def by blast
qed

section \<open>Envelope round trip\<close>

lemma stamp_at:
  assumes "1 \<le> Ln" "1 \<le> Rn" "0 < m \<longrightarrow> 1 \<le> Bn"
  shows "stamp H sh b Ln Bn Rn m nested j =
     (if j = b then BuildBlockStart H True nested m
      else if b < j \<and> j < b + Ln then kHeapLeftPaddingMarker H
      else if b + Ln \<le> j \<and> j < b + Ln + Bn then
        (if 0 < m \<and> j = b + Ln + Bn - 1 then m else 0)
      else if b + Ln + Bn \<le> j \<and> j < b + Ln + Bn + Rn - 1 then kHeapRightPaddingMarker H
      else if j = b + Ln + Bn + Rn - 1 then BuildBlockEnd H True nested
      else sh j)"
  using assms unfolding stamp_def Let_def
  by (auto simp: memset_apply)


lemma div8_diff:
  fixes x y :: nat
  assumes "x mod 8 = 0" "y mod 8 = 0"
  shows "(x - y) div 8 = x div 8 - y div 8"
proof -
  have x: "x = 8 * (x div 8)" and y: "y = 8 * (y div 8)"
    using assms by (metis mod_0_imp_dvd dvd_mult_div_cancel)+
  have "x - y = 8 * (x div 8 - y div 8)"
    by (subst x, subst y) (simp add: diff_mult_distrib2)
  then show ?thesis by simp
qed

lemma round_up8_cases:
  fixes bs :: nat
  shows "(bs + 7) div 8 = (if bs mod 8 = 0 then bs div 8 else bs div 8 + 1)"
proof -
  define q k where "q = bs div 8" and "k = bs mod 8"
  have bsq: "bs = 8 * q + k" and k: "k < 8" unfolding q_def k_def by simp_all
  have "(8 * q + (k + 7)) div 8 = q + (k + 7) div 8" by simp
  moreover have "(k + 7) div 8 = (if k = 0 then 0 else 1)"
  proof (cases "k = 0")
    case True then show ?thesis by simp
  next
    case False
    then have "8 \<le> k + 7" "k + 7 < 16" using k by simp_all
    then have "(k + 7) div 8 = 1" by (simp add: div_nat_eqI)
    then show ?thesis using False by simp
  qed
  ultimately have "(bs + 7) div 8 = (if k = 0 then q else q + 1)"
    unfolding bsq by (simp add: add.assoc)
  then show ?thesis unfolding q_def k_def .
qed

lemma layout_numbers:
  fixes blk bsz bdy bs :: nat
  assumes "blk mod 8 = 0" "bsz mod 8 = 0" "bdy mod 8 = 0"
      and "blk + 8 \<le> bdy" "bdy + bs + 8 \<le> blk + bsz"
  shows "blk div 8 + 1 \<le> bdy div 8"
    and "bdy div 8 + (bs + 7) div 8 + 1 \<le> blk div 8 + bsz div 8"
    and "bs mod 8 \<noteq> 0 \<longrightarrow> 1 \<le> (bs + 7) div 8"
    and "bs = (if bs mod 8 = 0 then 8 * ((bs + 7) div 8) else 8 * ((bs + 7) div 8) - 8 + bs mod 8)"
proof -
  define b h N Bn k q where "b = blk div 8" and "h = bdy div 8" and "N = bsz div 8"
    and "Bn = (bs + 7) div 8" and "k = bs mod 8" and "q = bs div 8"
  have blk: "blk = 8 * b" and bdy: "bdy = 8 * h" and bsz: "bsz = 8 * N"
    unfolding b_def h_def N_def using assms(1,2,3)
    by (metis mod_0_imp_dvd dvd_mult_div_cancel)+
  have bsq: "bs = 8 * q + k" and k: "k < 8" unfolding q_def k_def by simp_all
  have Bn: "Bn = (if k = 0 then q else q + 1)"
    unfolding Bn_def k_def q_def by (rule round_up8_cases)
  have 1: "b + 1 \<le> h" using assms(4) unfolding blk bdy by simp
  have "8 * h + 8 * q + k + 8 \<le> 8 * b + 8 * N"
    using assms(5) unfolding blk bdy bsz bsq by simp
  then have 2: "h + Bn + 1 \<le> b + N" using k unfolding Bn by (cases "k = 0") simp_all
  have 3: "k \<noteq> 0 \<longrightarrow> 1 \<le> Bn" unfolding Bn by simp
  have 4: "bs = (if k = 0 then 8 * Bn else 8 * Bn - 8 + k)" unfolding Bn bsq by simp
  show "blk div 8 + 1 \<le> bdy div 8" using 1 unfolding b_def h_def .
  show "bdy div 8 + (bs + 7) div 8 + 1 \<le> blk div 8 + bsz div 8"
    using 2 unfolding b_def h_def N_def Bn_def .
  show "bs mod 8 \<noteq> 0 \<longrightarrow> 1 \<le> (bs + 7) div 8" using 3 unfolding k_def Bn_def .
  show "bs = (if bs mod 8 = 0 then 8 * ((bs + 7) div 8) else 8 * ((bs + 7) div 8) - 8 + bs mod 8)"
    using 4 unfolding k_def Bn_def .
qed


lemma PoisonAllocatedBlock_stamp:
  assumes dcheck: "PoisonAllocatedBlock_DCHECK info" and layout: "block_layout_ok info"
  shows "PoisonAllocatedBlock H sh info =
         stamp H sh (unat (info_block info) div 8)
           (unat (info_body info) div 8 - unat (info_block info) div 8)
           ((unat (info_body_size info) + 7) div 8)
           (unat (info_block_size info) div 8 -
              (unat (info_body info) div 8 - unat (info_block info) div 8) -
              (unat (info_body_size info) + 7) div 8)
           (of_nat (unat (info_body_size info) mod 8))
           (info_header_is_nested info)"
proof -
  define blk bsz bdy bs where "blk = info_block info" and "bsz = info_block_size info"
    and "bdy = info_body info" and "bs = info_body_size info"
  define b h N Bn Ln Rn where "b = unat blk div 8" and "h = unat bdy div 8"
    and "N = unat bsz div 8" and "Bn = (unat bs + 7) div 8" and "Ln = h - b"
    and "Rn = N - Ln - Bn"
  have a1: "unat blk mod 8 = 0" and a2: "unat bsz mod 8 = 0"
    using dcheck unfolding PoisonAllocatedBlock_DCHECK_def blk_def bsz_def
    by (simp_all only: and7_eq0_iff)
  have a3: "unat bdy mod 8 = 0"
    using layout unfolding block_layout_ok_def bdy_def by (simp only: and7_eq0_iff)
  have l1: "unat blk + 8 \<le> unat bdy"
    and l2: "unat bdy + unat bs + 8 \<le> unat blk + unat bsz"
    and l3: "unat blk + unat bsz \<le> 2 ^ 31"
    using layout unfolding block_layout_ok_def blk_def bsz_def bdy_def bs_def by simp_all
  note n = layout_numbers [OF a1 a2 a3 l1 l2]
  have n1: "b + 1 \<le> h" using n(1) unfolding b_def h_def .
  have n2: "h + Bn + 1 \<le> b + N" using n(2) unfolding b_def h_def N_def Bn_def .
  have w1: "unat (blk div 8) = b" unfolding b_def by (rule unat_div8)
  have "blk \<le> bdy" using l1 by (simp add: word_le_nat_alt)
  then have "unat (bdy - blk) = unat bdy - unat blk" by (rule unat_sub)
  then have w2: "unat ((bdy - blk) div 8) = Ln"
    unfolding Ln_def h_def b_def unat_div8 using div8_diff [OF a3 a1] by simp
  have "unat bs + 7 < 2 ^ 32" using l2 l3 by simp
  then have w3: "unat ((bs + 8 - 1) div 8) = Bn" unfolding Bn_def by (rule unat_round_up8)
  have w4: "unat (bsz div 8) = N" unfolding N_def by (rule unat_div8)
  have "(bdy - blk) div 8 \<le> bsz div 8"
    using n1 n2 unfolding word_le_nat_alt w2 w4 Ln_def by simp
  then have s1: "unat (bsz div 8 - (bdy - blk) div 8) = N - Ln"
    unfolding w2 [symmetric] w4 [symmetric] by (rule unat_sub)
  have "(bs + 8 - 1) div 8 \<le> bsz div 8 - (bdy - blk) div 8"
    using n1 n2 unfolding word_le_nat_alt w3 s1 Ln_def by simp
  then have w5: "unat (bsz div 8 - (bdy - blk) div 8 - (bs + 8 - 1) div 8) = Rn"
    unfolding Rn_def s1 [symmetric] w3 [symmetric] by (rule unat_sub)
  have "1 \<le> (bdy - blk) div 8"
    using n1 unfolding word_le_nat_alt w2 Ln_def by simp
  then have "unat ((bdy - blk) div 8 - 1) = unat ((bdy - blk) div 8) - unat (1 :: size_t)"
    by (rule unat_sub)
  then have w6: "unat ((bdy - blk) div 8 - 1) = Ln - 1" unfolding w2 by simp
  have "1 \<le> bsz div 8 - (bdy - blk) div 8 - (bs + 8 - 1) div 8"
    using n1 n2 unfolding word_le_nat_alt w5 Rn_def Ln_def by simp
  then have "unat (bsz div 8 - (bdy - blk) div 8 - (bs + 8 - 1) div 8 - 1) =
             unat (bsz div 8 - (bdy - blk) div 8 - (bs + 8 - 1) div 8) - unat (1 :: size_t)"
    by (rule unat_sub)
  then have w7: "unat (bsz div 8 - (bdy - blk) div 8 - (bs + 8 - 1) div 8 - 1) = Rn - 1"
    unfolding w5 by simp
  have "(ucast (bs mod 8) :: uint8) = of_nat (unat (bs mod 8))" by simp
  then have w8: "(ucast (bs mod 8) :: uint8) = of_nat (unat bs mod 8)"
    by (simp add: unat_mod)
  have "PoisonAllocatedBlock H sh info =
        stamp H sh b Ln Bn Rn (of_nat (unat bs mod 8)) (info_header_is_nested info)"
    unfolding PoisonAllocatedBlock_def Let_def stamp_def kHeapAddressableMarker_def
      blk_def [symmetric] bsz_def [symmetric] bdy_def [symmetric] bs_def [symmetric]
    by (simp only: w1 w2 w3 w4 w5 w6 w7 w8)
  then show ?thesis
    unfolding Rn_def Ln_def Bn_def N_def h_def b_def blk_def bsz_def bdy_def bs_def .
qed


lemma ScanLeft_loop_finds:
  assumes "IsBlockStart H (sh b)" "kLowerBound \<le> b"
      and "\<forall>j. b < j \<and> j \<le> b + n \<longrightarrow> \<not> IsBlockStart H (sh j) \<and> \<not> IsBlockEnd H (sh j)"
  shows "ScanLeft_loop H sh (b + n) 0 = Some b"
  using assms(3)
proof (induction n)
  case 0
  have "ScanLeft_body H sh b 0 = Inr (Some b)"
    using assms(1) by (simp add: ScanLeft_body_def)
  then show ?case by (subst ScanLeft_loop.simps) simp
next
  case (Suc n)
  have m: "\<not> IsBlockStart H (sh (b + Suc n))" "\<not> IsBlockEnd H (sh (b + Suc n))"
    using Suc.prems by simp_all
  have k: "\<not> b + Suc n \<le> kLowerBound" using assms(2) by simp
  have "ScanLeft_body H sh (b + Suc n) 0 = Inl (b + n, 0)"
    using m k by (simp add: ScanLeft_body_def)
  then have "ScanLeft_loop H sh (b + Suc n) 0 = ScanLeft_loop H sh (b + n) 0"
    by (subst ScanLeft_loop.simps) simp
  moreover have "ScanLeft_loop H sh (b + n) 0 = Some b"
    using Suc.prems by (intro Suc.IH) simp
  ultimately show ?case by simp
qed

lemma ScanRight_loop_finds:
  assumes "IsBlockEnd H (sh e)" "sh e \<noteq> 0" "sh e \<noteq> kHeapFreedMarker H" "e < kShadowSize"
      and "\<forall>j. c \<le> j \<and> j < e \<longrightarrow> \<not> IsBlockStart H (sh j) \<and> \<not> IsBlockEnd H (sh j)"
      and "c \<le> e"
  shows "ScanRight_loop H sh c 0 = Some e"
  using assms(5,6)
proof (induction "e - c" arbitrary: c rule: less_induct)
  case less
  define q where "q = ScanRightForPotentialHeaderBytes H sh c kShadowSize"
  have sk: "skipped H sh c q"
    unfolding q_def by (rule ScanRightForPotentialHeaderBytes_skipped)
  then have cq: "c \<le> q" unfolding skipped_def by blast
  have qe: "q \<le> e"
  proof (rule ccontr)
    assume "\<not> q \<le> e"
    then have "c \<le> e \<and> e < q" using less.prems(2) by simp
    then have "sh e = 0 \<or> sh e = kHeapFreedMarker H"
      using sk unfolding skipped_def by blast
    then show False using assms(2,3) by blast
  qed
  have qn: "q \<noteq> kShadowSize" using qe assms(4) by simp
  have cl: "c < kShadowSize" using less.prems(2) assms(4) by simp
  show ?case
  proof (cases "q = e")
    case True
    have "ScanRight_body H sh c 0 = Inr (Some e)"
      unfolding ScanRight_body_def Let_def q_def [symmetric]
      using qn assms(1) True by simp
    then show ?thesis using cl by (subst ScanRight_loop.simps) simp
  next
    case False
    then have lt: "q < e" using qe by simp
    then have m: "\<not> IsBlockStart H (sh q)" "\<not> IsBlockEnd H (sh q)"
      using less.prems(1) cq by simp_all
    have "ScanRight_body H sh c 0 = Inl (q + 1, 0)"
      unfolding ScanRight_body_def Let_def q_def [symmetric]
      using qn m by simp
    then have "ScanRight_loop H sh c 0 = ScanRight_loop H sh (q + 1) 0"
      using cl by (subst ScanRight_loop.simps) simp
    moreover have "ScanRight_loop H sh (q + 1) 0 = Some e"
    proof (rule less.hyps)
      show "e - (q + 1) < e - c" using cq lt by simp
      show "\<forall>j. q + 1 \<le> j \<and> j < e \<longrightarrow> \<not> IsBlockStart H (sh j) \<and> \<not> IsBlockEnd H (sh j)"
        using less.prems(1) cq by simp
      show "q + 1 \<le> e" using lt by simp
    qed
    ultimately show ?thesis by simp
  qed
qed

lemma skip_left_padding_run:
  assumes "\<forall>j. l \<le> j \<and> j < l + n \<longrightarrow> sh j = kHeapLeftPaddingMarker H"
      and "sh (l + n) \<noteq> kHeapLeftPaddingMarker H" "l + n < r"
  shows "skip_left_padding H sh l r = l + n"
  using assms
proof (induction n arbitrary: l)
  case 0
  then show ?case by (subst skip_left_padding.simps) simp
next
  case (Suc n)
  have "sh l = kHeapLeftPaddingMarker H" "l < r" using Suc.prems by simp_all
  then have "skip_left_padding H sh l r = skip_left_padding H sh (l + 1) r"
    by (subst skip_left_padding.simps) simp
  moreover have "skip_left_padding H sh (l + 1) r = (l + 1) + n"
    using Suc.prems by (intro Suc.IH) simp_all
  ultimately show ?case by simp
qed

lemma skip_right_padding_run:
  assumes "\<forall>j. r \<le> j \<and> j < r + n \<longrightarrow> sh j = kHeapRightPaddingMarker H"
      and "r = l \<or> (l < r \<and> sh (r - 1) \<noteq> kHeapRightPaddingMarker H)"
  shows "skip_right_padding H sh l (r + n) = r"
  using assms
proof (induction n)
  case 0
  then show ?case by (subst skip_right_padding.simps) auto
next
  case (Suc n)
  have "sh (r + n) = kHeapRightPaddingMarker H" using Suc.prems(1) by simp
  moreover have "l < r + Suc n" using Suc.prems(2) by auto
  ultimately have "skip_right_padding H sh l (r + Suc n) = skip_right_padding H sh l (r + n)"
    by (subst skip_right_padding.simps) simp
  moreover have "skip_right_padding H sh l (r + n) = r"
    using Suc.prems by (intro Suc.IH) simp_all
  ultimately show ?case by simp
qed


lemma word8_gt7: "(7 :: uint8) < x \<Longrightarrow> y \<le> 7 \<Longrightarrow> y \<noteq> x"
  by auto

lemma envelope_scans:
  fixes sh' :: shadow
  assumes wf: "markers_wf H"
      and at: "\<And>j. sh' j =
        (if j = b then BuildBlockStart H True nested m
         else if b < j \<and> j < b + Ln then kHeapLeftPaddingMarker H
         else if b + Ln \<le> j \<and> j < b + Ln + Bn then
           (if 0 < m \<and> j = b + Ln + Bn - 1 then m else 0)
         else if b + Ln + Bn \<le> j \<and> j < b + Ln + Bn + Rn - 1 then kHeapRightPaddingMarker H
         else if j = b + Ln + Bn + Rn - 1 then BuildBlockEnd H True nested
         else sh j)"
      and m7: "m \<le> 7"
      and sizes: "1 \<le> Ln" "1 \<le> Rn" "0 < m \<longrightarrow> 1 \<le> Bn"
      and lower: "kLowerBound \<le> b"
      and upper: "b + Ln + Bn + Rn - 1 < kShadowSize"
  shows "ScanLeftForBracketingBlockStart H sh' 0 (b + Ln) = Some b"
    and "ScanRightForBracketingBlockEnd H sh' 0 (b + Ln) = Some (b + Ln + Bn + Rn - 1)"
    and "skip_left_padding H sh' (b + 1) (b + Ln + Bn + Rn - 1 + 1) = b + Ln"
    and "skip_right_padding H sh' (b + Ln) (b + Ln + Bn + Rn - 1) = b + Ln + Bn"
    and "sh' b = BuildBlockStart H True nested m"
    and "sh' (b + Ln - 1) = BuildBlockStart H True nested m \<or>
         sh' (b + Ln - 1) = kHeapLeftPaddingMarker H"
    and "sh' (b + Ln) = 0 \<or> (sh' (b + Ln) = m \<and> 0 < m) \<or>
         sh' (b + Ln) = kHeapRightPaddingMarker H \<or>
         sh' (b + Ln) = BuildBlockEnd H True nested"
proof -
  define S E LP RP e c where "S = BuildBlockStart H True nested m"
    and "E = BuildBlockEnd H True nested" and "LP = kHeapLeftPaddingMarker H"
    and "RP = kHeapRightPaddingMarker H" and "e = b + Ln + Bn + Rn - 1" and "c = b + Ln"
  have S: "IsBlockStart H S"
    using wf m7 unfolding markers_wf_def S_def by blast
  have E: "IsBlockEnd H E" "\<not> IsBlockStart H E" "7 < E" "E \<noteq> kHeapFreedMarker H" "E \<noteq> LP"
    using wf unfolding markers_wf_def E_def LP_def by blast+
  have LP: "\<not> IsBlockStart H LP" "\<not> IsBlockEnd H LP" "7 < LP"
    using wf unfolding markers_wf_def LP_def by blast+
  have RP: "\<not> IsBlockStart H RP" "\<not> IsBlockEnd H RP" "7 < RP" "RP \<noteq> LP"
    using wf unfolding markers_wf_def RP_def LP_def by blast+
  have low: "\<And>k. k \<le> 7 \<Longrightarrow> \<not> IsBlockStart H k \<and> \<not> IsBlockEnd H k"
    using wf unfolding markers_wf_def by blast
  have z7: "(0 :: uint8) \<le> 7" by simp
  have ce: "c \<le> e" using sizes unfolding c_def e_def by simp
  have bc: "b < c" using sizes unfolding c_def by simp
  have at': "\<And>j. sh' j =
        (if j = b then S
         else if b < j \<and> j < c then LP
         else if c \<le> j \<and> j < c + Bn then (if 0 < m \<and> j = c + Bn - 1 then m else 0)
         else if c + Bn \<le> j \<and> j < e then RP
         else if j = e then E
         else sh j)"
    unfolding S_def E_def LP_def RP_def e_def c_def by (rule at)
  have shb: "sh' b = S" by (simp add: at')
  have she: "sh' e = E" using ce bc sizes unfolding at' e_def c_def by auto
  have left_pad: "\<And>j. b < j \<Longrightarrow> j < c \<Longrightarrow> sh' j = LP"
    by (simp add: at')
  have right_pad: "\<And>j. c + Bn \<le> j \<Longrightarrow> j < e \<Longrightarrow> sh' j = RP"
    using bc by (simp add: at')
  have body: "\<And>j. c \<le> j \<Longrightarrow> j < c + Bn \<Longrightarrow> sh' j = 0 \<or> (sh' j = m \<and> 0 < m)"
    using bc by (simp add: at')
  have inner: "\<And>j. c \<le> j \<Longrightarrow> j < e \<Longrightarrow> sh' j = 0 \<or> (sh' j = m \<and> 0 < m) \<or> sh' j = RP"
  proof -
    fix j assume "c \<le> j" "j < e"
    then show "sh' j = 0 \<or> (sh' j = m \<and> 0 < m) \<or> sh' j = RP"
      using body [of j] right_pad [of j] by (cases "j < c + Bn") auto
  qed
  have inner_plain: "\<And>j. c \<le> j \<Longrightarrow> j < e \<Longrightarrow> \<not> IsBlockStart H (sh' j) \<and> \<not> IsBlockEnd H (sh' j)"
    using inner low [OF m7] low [OF z7] RP by metis
  have left_plain: "\<And>j. b < j \<Longrightarrow> j < c \<Longrightarrow> \<not> IsBlockStart H (sh' j) \<and> \<not> IsBlockEnd H (sh' j)"
    using left_pad LP by metis
  have c_not_start: "\<not> IsBlockStart H (sh' c)"
    using inner_plain [of c] she E(2) ce by (cases "c = e") auto
  have c_not_LP: "sh' c \<noteq> LP"
  proof (cases "c = e")
    case True then show ?thesis using she E(5) by simp
  next
    case False
    then have "sh' c = 0 \<or> (sh' c = m \<and> 0 < m) \<or> sh' c = RP" using inner [of c] ce by simp
    then show ?thesis using RP(4) word8_gt7 [OF LP(3) m7] word8_gt7 [OF LP(3) z7] by metis
  qed

  show "sh' b = BuildBlockStart H True nested m" using shb unfolding S_def .

  show "ScanLeftForBracketingBlockStart H sh' 0 (b + Ln) = Some b"
  proof (cases "c = e")
    case False
    then have "\<not> IsBlockEnd H (sh' c)" using inner_plain [of c] ce by simp
    then have "ScanLeftForBracketingBlockStart H sh' 0 c = ScanLeft_loop H sh' c 0"
      by (simp add: ScanLeftForBracketingBlockStart_def Let_def)
    moreover have "ScanLeft_loop H sh' (b + Ln) 0 = Some b"
    proof (rule ScanLeft_loop_finds)
      show "IsBlockStart H (sh' b)" using S shb by simp
      show "kLowerBound \<le> b" by (rule lower)
      show "\<forall>j. b < j \<and> j \<le> b + Ln \<longrightarrow> \<not> IsBlockStart H (sh' j) \<and> \<not> IsBlockEnd H (sh' j)"
      proof (intro allI impI)
        fix j assume j: "b < j \<and> j \<le> b + Ln"
        show "\<not> IsBlockStart H (sh' j) \<and> \<not> IsBlockEnd H (sh' j)"
        proof (cases "j < c")
          case True then show ?thesis using left_plain j by blast
        next
          case F: False
          then have "j = c" using j unfolding c_def by simp
          then show ?thesis using inner_plain [of c] ce False by simp
        qed
      qed
    qed
    ultimately show ?thesis unfolding c_def by simp
  next
    case True
    then have ie: "IsBlockEnd H (sh' c)" "\<not> IsBlockStart H (sh' c)" using she E by simp_all
    then have "ScanLeftForBracketingBlockStart H sh' 0 c = ScanLeft_loop H sh' c (- 1)"
      by (simp add: ScanLeftForBracketingBlockStart_def Let_def)
    moreover have "\<not> c \<le> kLowerBound" using bc lower by simp
    then have "ScanLeft_body H sh' c (- 1) = Inl (c - 1, 0)"
      using ie by (simp add: ScanLeft_body_def)
    then have "ScanLeft_loop H sh' c (- 1) = ScanLeft_loop H sh' (c - 1) 0"
      by (subst ScanLeft_loop.simps) simp
    moreover have "ScanLeft_loop H sh' (b + (Ln - 1)) 0 = Some b"
    proof (rule ScanLeft_loop_finds)
      show "IsBlockStart H (sh' b)" using S shb by simp
      show "kLowerBound \<le> b" by (rule lower)
      show "\<forall>j. b < j \<and> j \<le> b + (Ln - 1) \<longrightarrow>
              \<not> IsBlockStart H (sh' j) \<and> \<not> IsBlockEnd H (sh' j)"
      proof (intro allI impI)
        fix j assume j: "b < j \<and> j \<le> b + (Ln - 1)"
        then have "j < c" using sizes(1) unfolding c_def by arith
        then show "\<not> IsBlockStart H (sh' j) \<and> \<not> IsBlockEnd H (sh' j)"
          using left_plain j by blast
      qed
    qed
    moreover have "c - 1 = b + (Ln - 1)" using sizes(1) unfolding c_def by simp
    ultimately show ?thesis unfolding c_def by simp
  qed

  have "ScanRightForBracketingBlockEnd H sh' 0 c = ScanRight_loop H sh' c 0"
    using c_not_start by (simp add: ScanRightForBracketingBlockEnd_def Let_def)
  moreover have "ScanRight_loop H sh' c 0 = Some e"
  proof (rule ScanRight_loop_finds)
    show "IsBlockEnd H (sh' e)" using she E by simp
    show "sh' e \<noteq> 0" using she E(3) by auto
    show "sh' e \<noteq> kHeapFreedMarker H" using she E(4) by simp
    show "e < kShadowSize" using upper unfolding e_def .
    show "\<forall>j. c \<le> j \<and> j < e \<longrightarrow> \<not> IsBlockStart H (sh' j) \<and> \<not> IsBlockEnd H (sh' j)"
      using inner_plain by blast
    show "c \<le> e" by (rule ce)
  qed
  ultimately show "ScanRightForBracketingBlockEnd H sh' 0 (b + Ln) = Some (b + Ln + Bn + Rn - 1)"
    unfolding c_def e_def by simp

  have "skip_left_padding H sh' (b + 1) (e + 1) = (b + 1) + (Ln - 1)"
  proof (rule skip_left_padding_run)
    show "\<forall>j. b + 1 \<le> j \<and> j < b + 1 + (Ln - 1) \<longrightarrow> sh' j = kHeapLeftPaddingMarker H"
      using left_pad sizes(1) unfolding c_def LP_def by simp
    show "sh' (b + 1 + (Ln - 1)) \<noteq> kHeapLeftPaddingMarker H"
      using c_not_LP sizes(1) unfolding c_def LP_def by simp
    show "b + 1 + (Ln - 1) < e + 1" using ce sizes(1) unfolding c_def by simp
  qed
  then show "skip_left_padding H sh' (b + 1) (b + Ln + Bn + Rn - 1 + 1) = b + Ln"
    using sizes(1) unfolding e_def by simp

  have "skip_right_padding H sh' c ((c + Bn) + (Rn - 1)) = c + Bn"
  proof (rule skip_right_padding_run)
    show "\<forall>j. c + Bn \<le> j \<and> j < c + Bn + (Rn - 1) \<longrightarrow> sh' j = kHeapRightPaddingMarker H"
      using right_pad sizes(2) unfolding e_def c_def RP_def by simp
    show "c + Bn = c \<or> (c < c + Bn \<and> sh' (c + Bn - 1) \<noteq> kHeapRightPaddingMarker H)"
    proof (cases "Bn = 0")
      case True then show ?thesis by simp
    next
      case False
      then have "sh' (c + Bn - 1) = 0 \<or> (sh' (c + Bn - 1) = m \<and> 0 < m)"
        using body [of "c + Bn - 1"] by simp
      then have "sh' (c + Bn - 1) \<noteq> RP"
        using word8_gt7 [OF RP(3) m7] word8_gt7 [OF RP(3) z7] by metis
      then show ?thesis using False unfolding RP_def by simp
    qed
  qed
  moreover have "c + Bn + (Rn - 1) = e" using sizes(2) unfolding e_def c_def by simp
  ultimately show "skip_right_padding H sh' (b + Ln) (b + Ln + Bn + Rn - 1) = b + Ln + Bn"
    unfolding c_def e_def by simp

  show "sh' (b + Ln - 1) = BuildBlockStart H True nested m \<or>
        sh' (b + Ln - 1) = kHeapLeftPaddingMarker H"
  proof (cases "Ln = 1")
    case True then show ?thesis using shb unfolding S_def by simp
  next
    case False
    then have "b < c - 1" "c - 1 < c" using sizes(1) unfolding c_def by simp_all
    then have "sh' (c - 1) = LP" by (rule left_pad)
    then show ?thesis unfolding c_def LP_def by simp
  qed

  show "sh' (b + Ln) = 0 \<or> (sh' (b + Ln) = m \<and> 0 < m) \<or>
        sh' (b + Ln) = kHeapRightPaddingMarker H \<or> sh' (b + Ln) = BuildBlockEnd H True nested"
    using inner [of c] she ce unfolding c_def [symmetric] RP_def E_def
    by (cases "c = e") auto
qed


lemma of_nat_times8: "unat (w :: 32 word) mod 8 = 0 \<Longrightarrow> (of_nat (unat w div 8) * 8 :: 32 word) = w"
proof -
  assume "unat w mod 8 = 0"
  then have "unat w div 8 * 8 = unat w" by (metis mod_0_imp_dvd dvd_div_mult_self)
  then have "(of_nat (unat w div 8 * 8) :: 32 word) = w" by simp
  then show ?thesis by simp
qed

lemma pred_div8:
  fixes x :: nat
  assumes "x mod 8 = 0" "0 < x"
  shows "(x - 1) div 8 = x div 8 - 1"
proof -
  define q where "q = x div 8"
  have x: "x = 8 * q" unfolding q_def using assms(1) by (metis mod_0_imp_dvd dvd_mult_div_cancel)
  then have "0 < q" using assms(2) by simp
  then obtain p where q: "q = Suc p" by (cases q) simp_all
  have "x - 1 = 8 * p + 7" unfolding x q by simp
  then have "(x - 1) div 8 = p" by simp
  then show ?thesis unfolding q_def [symmetric] q by simp
qed


text \<open>
  C1. For a block laid out as section 3 of the spec says (any body size, any alignment
  that is a multiple of 8, nested or not), after \<open>PoisonAllocatedBlock\<close> the call
  \<open>BlockInfoFromShadow\<close> on the body address succeeds and recovers the block base, the
  block size, the header size (so the body address), the trailer size (so the body
  size) and the nesting flag of the planned block, whatever the shadow held before,
  and \<open>IsBeginningOfBlockBody\<close> holds at the body address.
\<close>

theorem envelope_round_trip:
  assumes wf: "markers_wf H"
      and dcheck: "PoisonAllocatedBlock_DCHECK info"
      and layout: "block_layout_ok info"
  shows "BlockInfoFromShadow H (PoisonAllocatedBlock H sh info) (info_body info) =
           Some \<lparr>block = info_block info,
                 block_size = info_block_size info,
                 header_size = info_body info - info_block info,
                 trailer_size = info_block_size info - info_body_size info -
                                (info_body info - info_block info),
                 is_nested = info_header_is_nested info\<rparr> \<and>
         IsBeginningOfBlockBody H (PoisonAllocatedBlock H sh info) (info_body info)"
proof -
  define blk bsz bdy bs nested where "blk = info_block info" and "bsz = info_block_size info"
    and "bdy = info_body info" and "bs = info_body_size info"
    and "nested = info_header_is_nested info"
  define b h N Bn Ln Rn k where "b = unat blk div 8" and "h = unat bdy div 8"
    and "N = unat bsz div 8" and "Bn = (unat bs + 7) div 8" and "Ln = h - b"
    and "Rn = N - Ln - Bn" and "k = unat bs mod 8"
  define m :: uint8 where "m = of_nat k"
  define sh' where "sh' = PoisonAllocatedBlock H sh info"
  have a1: "unat blk mod 8 = 0" and a2: "unat bsz mod 8 = 0"
    using dcheck unfolding PoisonAllocatedBlock_DCHECK_def blk_def bsz_def
    by (simp_all only: and7_eq0_iff)
  have a3: "unat bdy mod 8 = 0"
    using layout unfolding block_layout_ok_def bdy_def by (simp only: and7_eq0_iff)
  have l0: "kAddressLowerBound \<le> unat blk"
    and l1: "unat blk + 8 \<le> unat bdy"
    and l2: "unat bdy + unat bs + 8 \<le> unat blk + unat bsz"
    and l3: "unat blk + unat bsz \<le> 2 ^ 31"
    using layout unfolding block_layout_ok_def blk_def bsz_def bdy_def bs_def by simp_all
  note n = layout_numbers [OF a1 a2 a3 l1 l2]
  have n1: "b + 1 \<le> h" using n(1) unfolding b_def h_def .
  have n2: "h + Bn + 1 \<le> b + N" using n(2) unfolding b_def h_def N_def Bn_def .
  have n3: "k \<noteq> 0 \<longrightarrow> 1 \<le> Bn" using n(3) unfolding k_def Bn_def .
  have n4: "unat bs = (if k = 0 then 8 * Bn else 8 * Bn - 8 + k)"
    using n(4) unfolding k_def Bn_def .
  have blk8: "unat blk = 8 * b" and bsz8: "unat bsz = 8 * N" and bdy8: "unat bdy = 8 * h"
    unfolding b_def N_def h_def using a1 a2 a3 by (metis mod_0_imp_dvd dvd_mult_div_cancel)+
  have k8: "k < 8" unfolding k_def by simp
  have um: "unat m = k" unfolding m_def k_def by (rule unat_of_nat_mod8)
  have m7: "m \<le> 7" using k8 unfolding word_le_nat_alt um by simp
  have mpos: "0 < m \<longleftrightarrow> k \<noteq> 0" unfolding word_less_nat_alt um by simp
  have Ln: "1 \<le> Ln" and Rn: "1 \<le> Rn" and hb: "b + Ln = h" and en: "b + Ln + Bn + Rn = b + N"
    using n1 n2 unfolding Ln_def Rn_def by simp_all
  have Bn: "0 < m \<longrightarrow> 1 \<le> Bn" using n3 mpos by simp
  have lower: "kLowerBound \<le> b"
    using l0 unfolding blk8 kLowerBound_def kAddressLowerBound_def kShadowRatio_def by simp
  have "8 * (b + N) \<le> 2 ^ 31" using l3 unfolding blk8 bsz8 by simp
  then have "b + N \<le> 2 ^ 28" by simp
  then have upper: "b + Ln + Bn + Rn - 1 < kShadowSize"
    unfolding en kShadowSize_def using n1 n2 by simp
  have st: "sh' = stamp H sh b Ln Bn Rn m nested"
    unfolding sh'_def m_def k_def Rn_def Ln_def Bn_def N_def h_def b_def blk_def bsz_def
      bdy_def bs_def nested_def
    by (rule PoisonAllocatedBlock_stamp [OF dcheck layout])
  have at: "\<And>j. sh' j =
        (if j = b then BuildBlockStart H True nested m
         else if b < j \<and> j < b + Ln then kHeapLeftPaddingMarker H
         else if b + Ln \<le> j \<and> j < b + Ln + Bn then
           (if 0 < m \<and> j = b + Ln + Bn - 1 then m else 0)
         else if b + Ln + Bn \<le> j \<and> j < b + Ln + Bn + Rn - 1 then kHeapRightPaddingMarker H
         else if j = b + Ln + Bn + Rn - 1 then BuildBlockEnd H True nested
         else sh j)"
    unfolding st by (rule stamp_at [OF Ln Rn Bn])
  note sc = envelope_scans [of H sh' b nested m Ln Bn Rn sh, OF wf at m7 Ln Rn Bn lower upper]
  have S: "IsNestedBlockStart H (sh' b) = nested" "GetBlockStartData H (sh' b) = m"
    using wf m7 unfolding sc(5) markers_wf_def by blast+
  have ee: "b + Ln + Bn + Rn - 1 = b + N - 1" using en by simp
  have cur: "unat (bdy div 8) = h" unfolding h_def by (rule unat_div8)
  have scL: "ScanLeftForBracketingBlockStart H sh' 0 (unat (bdy div 8)) = Some b"
    unfolding cur using sc(1) [unfolded hb] .
  have scR: "ScanRightForBracketingBlockEnd H sh' 0 (unat (bdy div 8)) = Some (b + N - 1)"
    unfolding cur using sc(2) [unfolded ee, unfolded hb] .
  have skL: "skip_left_padding H sh' (b + 1) (b + N - 1 + 1) = h"
    using sc(3) [unfolded ee, unfolded hb] .
  have "skip_right_padding H sh' h (b + N - 1) = h + Bn"
    using sc(4) [unfolded ee, unfolded hb] .
  then have skR: "skip_right_padding H sh' h (b + N - 1 + 1 - 1) = h + Bn"
    by simp
  have f1: "(of_nat b * 8 :: uintptr_t) = blk"
    unfolding b_def by (rule of_nat_times8 [OF a1])
  have f3: "(of_nat h * 8 :: uintptr_t) = bdy"
    unfolding h_def by (rule of_nat_times8 [OF a3])
  have "b + N - 1 + 1 = N + b" using n1 n2 by simp
  then have "(of_nat (b + N - 1 + 1) - of_nat b :: size_t) = of_nat N"
    by simp
  then have f2: "((of_nat (b + N - 1 + 1) - of_nat b) * 8 :: size_t) = bsz"
    using of_nat_times8 [OF a2] unfolding N_def by simp
  have f4: "((of_nat (h + Bn) - of_nat h) * 8 :: size_t) = of_nat (8 * Bn)"
    by simp
  have "(ucast m :: size_t) = of_nat (unat m)" by simp
  then have f5: "(ucast m :: size_t) = of_nat k" unfolding um .
  have f6: "(0 :: size_t) < of_nat k \<longleftrightarrow> k \<noteq> 0"
  proof -
    have "unat (of_nat k :: size_t) = k" using k8 by (simp add: unat_of_nat)
    then show ?thesis unfolding word_less_nat_alt by simp
  qed
  have f7: "(if (0 :: size_t) < of_nat k then of_nat (8 * Bn) - 8 + of_nat k else of_nat (8 * Bn)) = bs"
  proof (cases "k = 0")
    case True
    then have u: "unat bs = 8 * Bn" using n4 by simp
    have "(of_nat (unat bs) :: size_t) = bs" by simp
    then have "(of_nat (8 * Bn) :: size_t) = bs" unfolding u .
    then show ?thesis using True by simp
  next
    case False
    then have u: "unat bs = 8 * Bn - 8 + k" and b1: "8 \<le> 8 * Bn" using n4 n3 by simp_all
    have "(of_nat (8 * Bn - 8 + k) :: size_t) = of_nat (8 * Bn) - 8 + of_nat k"
      using b1 by (simp add: of_nat_diff)
    moreover have "(of_nat (unat bs) :: size_t) = bs" by simp
    then have "(of_nat (8 * Bn - 8 + k) :: size_t) = bs" unfolding u .
    ultimately show ?thesis using False f6 by simp
  qed
  have rt: "BlockInfoFromShadow H sh' bdy =
        Some \<lparr>block = blk, block_size = bsz, header_size = bdy - blk,
              trailer_size = bsz - bs - (bdy - blk), is_nested = nested\<rparr>"
    unfolding BlockInfoFromShadow_def BlockInfoFromShadowImpl_def Let_def
    by (simp only: scL scR option.case skL skR S f1 f2 f3 f4 f5 f7)
  have c_marker: "sh' h = 0 \<or> (sh' h = m \<and> 0 < m) \<or> sh' h = kHeapRightPaddingMarker H \<or>
         sh' h = BuildBlockEnd H True nested"
    using sc(7) [unfolded hb] .
  have acc_or: "IsAccessible H sh' bdy \<or> IsRightRedzone H sh' bdy"
  proof -
    have rz: "IsRightRedzone H sh' bdy" if x: "7 < sh' h" "IsActiveRightRedzone H (sh' h)"
    proof -
      have "sh' h \<noteq> 0" "\<not> sh' h \<le> 7" using x(1) by auto
      then show ?thesis
        using x(2) unfolding IsRightRedzone_alt h_def [symmetric] by simp
    qed
    have RP: "7 < kHeapRightPaddingMarker H" "IsActiveRightRedzone H (kHeapRightPaddingMarker H)"
      and E: "7 < BuildBlockEnd H True nested" "IsActiveRightRedzone H (BuildBlockEnd H True nested)"
      using wf unfolding markers_wf_def by blast+
    have nrz: "0 < m \<Longrightarrow> \<not> IsRedzone H m"
      using wf m7 unfolding markers_wf_def by auto
    from c_marker show ?thesis
    proof (elim disjE)
      assume "sh' h = 0"
      then show ?thesis
        using IsAccessible_cases [where sh'=sh' and p=bdy and H=H and m=0]
        unfolding h_def by simp
    next
      assume x: "sh' h = m \<and> 0 < m"
      then have "0 < unat m" unfolding word_less_nat_alt by simp
      then have "IsAccessible H sh' bdy"
        using IsAccessible_cases [where sh'=sh' and p=bdy and H=H and m=m] x nrz a3
        unfolding h_def by auto
      then show ?thesis ..
    next
      assume "sh' h = kHeapRightPaddingMarker H"
      then show ?thesis using rz RP by simp
    next
      assume "sh' h = BuildBlockEnd H True nested"
      then show ?thesis using rz E by simp
    qed
  qed
  have left_rz: "IsLeftRedzone H sh' (bdy - 1)"
  proof -
    have pos: "0 < unat bdy" using l1 by simp
    then have "bdy \<noteq> 0" by auto
    then have "unat (bdy - 1) = unat bdy - 1" by (rule unat_minus_one)
    then have "unat (bdy - 1) div 8 = h - 1"
      unfolding h_def using pred_div8 [OF a3 pos] by simp
    then have i: "unat (drop_bit 3 (bdy - 1)) = b + Ln - 1"
      unfolding unat_drop_bit3 hb [symmetric] by simp
    have "IsActiveLeftRedzone H (BuildBlockStart H True nested m)"
      "IsActiveLeftRedzone H (kHeapLeftPaddingMarker H)"
      using wf m7 unfolding markers_wf_def by blast+
    then have "IsActiveLeftRedzone H (sh' (b + Ln - 1))" using sc(6) by metis
    then show ?thesis unfolding IsLeftRedzone_def GetShadowMarkerForAddress_def i .
  qed
  have "IsBeginningOfBlockBody H sh' bdy"
    unfolding IsBeginningOfBlockBody_def using acc_or left_rz by auto
  then show ?thesis
    using rt unfolding sh'_def blk_def bsz_def bdy_def bs_def nested_def by simp
qed


lemma syzygy_markers_wf: "markers_wf syzygy_markers"
proof -
  have low: "P k" if "k \<le> 7" "P 0" "P 1" "P 2" "P 3" "P 4" "P 5" "P 6" "P 7"
    for k :: uint8 and P
    using word8_le7_cases [OF that(1)] that(2-) by auto
  have 1: "\<forall>n d. d \<le> 7 \<longrightarrow>
        IsBlockStart syzygy_markers (BuildBlockStart syzygy_markers True n d) \<and>
        IsNestedBlockStart syzygy_markers (BuildBlockStart syzygy_markers True n d) = n \<and>
        GetBlockStartData syzygy_markers (BuildBlockStart syzygy_markers True n d) = d \<and>
        IsActiveLeftRedzone syzygy_markers (BuildBlockStart syzygy_markers True n d)"
  proof (intro allI impI)
    fix n and d :: uint8 assume d: "d \<le> 7"
    show "IsBlockStart syzygy_markers (BuildBlockStart syzygy_markers True n d) \<and>
        IsNestedBlockStart syzygy_markers (BuildBlockStart syzygy_markers True n d) = n \<and>
        GetBlockStartData syzygy_markers (BuildBlockStart syzygy_markers True n d) = d \<and>
        IsActiveLeftRedzone syzygy_markers (BuildBlockStart syzygy_markers True n d)"
      by (rule low [OF d]; cases n; simp add: syzygy_markers_def)
  qed
  have 2: "\<forall>n. IsBlockEnd syzygy_markers (BuildBlockEnd syzygy_markers True n) \<and>
        \<not> IsBlockStart syzygy_markers (BuildBlockEnd syzygy_markers True n) \<and>
        IsActiveRightRedzone syzygy_markers (BuildBlockEnd syzygy_markers True n) \<and>
        7 < BuildBlockEnd syzygy_markers True n \<and>
        BuildBlockEnd syzygy_markers True n \<noteq> kHeapFreedMarker syzygy_markers \<and>
        BuildBlockEnd syzygy_markers True n \<noteq> kHeapLeftPaddingMarker syzygy_markers"
  proof
    fix n
    show "IsBlockEnd syzygy_markers (BuildBlockEnd syzygy_markers True n) \<and>
        \<not> IsBlockStart syzygy_markers (BuildBlockEnd syzygy_markers True n) \<and>
        IsActiveRightRedzone syzygy_markers (BuildBlockEnd syzygy_markers True n) \<and>
        7 < BuildBlockEnd syzygy_markers True n \<and>
        BuildBlockEnd syzygy_markers True n \<noteq> kHeapFreedMarker syzygy_markers \<and>
        BuildBlockEnd syzygy_markers True n \<noteq> kHeapLeftPaddingMarker syzygy_markers"
      by (cases n; simp add: syzygy_markers_def)
  qed
  have 3: "\<not> IsBlockStart syzygy_markers (kHeapLeftPaddingMarker syzygy_markers) \<and>
      \<not> IsBlockEnd syzygy_markers (kHeapLeftPaddingMarker syzygy_markers) \<and>
      IsActiveLeftRedzone syzygy_markers (kHeapLeftPaddingMarker syzygy_markers) \<and>
      7 < kHeapLeftPaddingMarker syzygy_markers"
    by (simp add: syzygy_markers_def)
  have 4: "\<not> IsBlockStart syzygy_markers (kHeapRightPaddingMarker syzygy_markers) \<and>
      \<not> IsBlockEnd syzygy_markers (kHeapRightPaddingMarker syzygy_markers) \<and>
      IsActiveRightRedzone syzygy_markers (kHeapRightPaddingMarker syzygy_markers) \<and>
      7 < kHeapRightPaddingMarker syzygy_markers \<and>
      kHeapRightPaddingMarker syzygy_markers \<noteq> kHeapLeftPaddingMarker syzygy_markers"
    by (simp add: syzygy_markers_def)
  have 5: "\<forall>k. k \<le> 7 \<longrightarrow>
        \<not> IsBlockStart syzygy_markers k \<and> \<not> IsBlockEnd syzygy_markers k \<and>
        (k \<noteq> 0 \<longrightarrow> \<not> IsRedzone syzygy_markers k)"
  proof (intro allI impI)
    fix k :: uint8 assume k: "k \<le> 7"
    show "\<not> IsBlockStart syzygy_markers k \<and> \<not> IsBlockEnd syzygy_markers k \<and>
        (k \<noteq> 0 \<longrightarrow> \<not> IsRedzone syzygy_markers k)"
      by (rule low [OF k]; simp add: syzygy_markers_def)
  qed
  show ?thesis unfolding markers_wf_def using 1 2 3 4 5 by blast
qed

theorem envelope_round_trip_witness:
  "PoisonAllocatedBlock_DCHECK example_block \<and> block_layout_ok example_block \<and>
   BlockInfoFromShadow syzygy_markers (PoisonAllocatedBlock syzygy_markers (\<lambda>_. 0) example_block)
       0x10010 =
     Some \<lparr>block = 0x10000, block_size = 48, header_size = 16, trailer_size = 22,
           is_nested = False\<rparr> \<and>
   IsBeginningOfBlockBody syzygy_markers
     (PoisonAllocatedBlock syzygy_markers (\<lambda>_. 0) example_block) 0x10010"
proof -
  have d: "PoisonAllocatedBlock_DCHECK example_block"
    by (simp add: PoisonAllocatedBlock_DCHECK_def example_block_def)
  have l: "block_layout_ok example_block"
    by (simp add: block_layout_ok_def example_block_def kAddressLowerBound_def)
  show ?thesis
    using envelope_round_trip [OF syzygy_markers_wf d l, of "\<lambda>_. 0"] d l
    by (simp add: example_block_def)
qed

end
